theory Spec2Isabelle
  imports Complex_Main
begin

text \<open>
  A shallow embedding of the Monte-Carlo tree search of \<open>rl_agents/agents/tree_search/mcts.py\<close>
  (classes \<open>Node\<close>, \<open>MCTS\<close>, \<open>MCTSAgent\<close>, \<open>RobustMCTSAgent\<close>) and of
  \<open>JointEnv.get_available_actions\<close> of \<open>rl_agents/agents/tree_search/robust.py\<close>.

  Conventions. Python floats are read as real numbers. Objects that refer to each other live
  in a store (a list of nodes) and are named by their address, the index in the list; a new
  object takes the next free address. A Python exception is a value \<open>Inl err\<close> of a sum type;
  the state left behind by a call that raises is not modelled. A function whose recursion
  follows references returns an option, and \<open>None\<close> means that the call does not return.
\<close>

section \<open>Tree nodes\<close>

text \<open>
  Actions are the indices \<open>0, 1, ...\<close> of a discrete action space.
\<close>

type_synonym action = nat

text \<open>
  Addresses of objects in a store.
\<close>

type_synonym addr = nat

text \<open>
  A \<open>Node\<close> object has the fields \<open>parent\<close>, \<open>prior\<close>, \<open>children\<close>, \<open>count\<close> and \<open>value\<close>
  (written \<open>val\<close> here). \<open>parent\<close> is \<open>None\<close> or the address of the parent. The dictionary
  \<open>children\<close>, from actions to child nodes, is an association list in insertion order, which
  is the order in which Python iterates over it.
\<close>

record node =
  parent :: "addr option"
  prior :: real
  children :: "(action \<times> addr) list"
  count :: nat
  val :: real

text \<open>
  The class constant \<open>K = 1.0\<close>, "the value function first-order filter gain".
\<close>

definition K :: real where
  "K = 1"

text \<open>
  \<open>Node.__init__(parent, prior)\<close>: no children, no visit, value 0.
\<close>

definition Node :: "addr option \<Rightarrow> real \<Rightarrow> node" where
  "Node p pr = \<lparr>parent = p, prior = pr, children = [], count = 0, val = 0\<rparr>"

text \<open>
  \<open>Node.update\<close>:
  \<^verbatim>\<open>self.count += 1\<close>;
  \<^verbatim>\<open>self.value += self.K / self.count * (total_reward - self.value)\<close>.
  The second statement reads the count already incremented.
\<close>

definition update :: "real \<Rightarrow> node \<Rightarrow> node" where
  "update total_reward n =
     (let n1 = n\<lparr>count := count n + 1\<rparr>
      in n1\<lparr>val := val n1 + K / real (count n1) * (total_reward - val n1)\<rparr>)"

text \<open>
  Successive calls of \<open>update\<close> on one node, one for each reward of the list, in order.
\<close>

fun updates :: "real list \<Rightarrow> node \<Rightarrow> node" where
  "updates [] n = n"
| "updates (r # rs) n = updates rs (update r n)"

text \<open>
  The store of the \<open>Node\<close> objects of one tree.
\<close>

type_synonym store = "node list"

text \<open>
  The exceptions that the modelled code can raise.
\<close>

datatype error = IndexError | KeyError | ValueError

text \<open>
  \<open>Node.update_branch\<close>: \<open>self.update(total_reward)\<close>, then, if there is a parent,
  \<open>self.parent.update_branch(total_reward)\<close>. The recursion follows the parent references; on a
  store in which they form a cycle it does not return.
\<close>

partial_function (option) update_branch :: "real \<Rightarrow> addr \<Rightarrow> store \<Rightarrow> store option" where
  "update_branch total_reward self s =
     (case parent (s ! self) of
        None \<Rightarrow> Some (s[self := update total_reward (s ! self)])
      | Some p \<Rightarrow> update_branch total_reward p (s[self := update total_reward (s ! self)]))"

declare update_branch.simps [code]

text \<open>
  \<open>branch s self ps\<close>: following the parent references from \<open>self\<close> reaches a node without
  parent, and \<open>ps\<close> lists the nodes met on the way, \<open>self\<close> first and the root last. A node
  at depth \<open>d\<close> has a branch of \<open>d + 1\<close> nodes: itself and its \<open>d\<close> ancestors.
\<close>

inductive branch :: "store \<Rightarrow> addr \<Rightarrow> addr list \<Rightarrow> bool" where
  root: "self < length s \<Longrightarrow> parent (s ! self) = None \<Longrightarrow> branch s self [self]"
| step: "self < length s \<Longrightarrow> parent (s ! self) = Some p \<Longrightarrow> branch s p ps \<Longrightarrow>
         branch s self (self # ps)"

code_pred branch .

section \<open>Selecting an action\<close>

text \<open>
  Python's \<open>max(iterable, key=...)\<close> keeps the first item and replaces it by a later one only
  when the key of the later one is strictly greater: among items of maximal key the first wins.
\<close>

fun max_from :: "('a \<Rightarrow> 'b::linorder) \<Rightarrow> 'a \<Rightarrow> 'a list \<Rightarrow> 'a" where
  "max_from key best [] = best"
| "max_from key best (x # xs) = max_from key (if key best < key x then x else best) xs"

text \<open>
  \<open>max\<close> of an empty sequence raises \<open>ValueError\<close>.
\<close>

definition py_max :: "'a list \<Rightarrow> ('a \<Rightarrow> 'b::linorder) \<Rightarrow> error + 'a" where
  "py_max xs key = (case xs of [] \<Rightarrow> Inl ValueError | x # xs' \<Rightarrow> Inr (max_from key x xs'))"

text \<open>
  \<open>self.children.keys()\<close>, in insertion order.
\<close>

definition keys :: "node \<Rightarrow> action list" where
  "keys n = map fst (children n)"

text \<open>
  \<open>self.children[key]\<close> for a key of the dictionary.
\<close>

definition child :: "node \<Rightarrow> action \<Rightarrow> addr" where
  "child n key = the (map_of (children n) key)"

text \<open>
  \<open>Node.selection_strategy\<close>: the value alone for a node without parent, else
  \<open>self.value + temperature*self.prior/(self.count+1)\<close>.
\<close>

definition selection_strategy :: "real \<Rightarrow> node \<Rightarrow> real" where
  "selection_strategy temperature n =
     (if parent n = None then val n
      else val n + temperature * prior n / (real (count n) + 1))"

text \<open>
  \<open>Node.select_action\<close>: \<open>None\<close> for a node without children; for temperature 0 the key whose
  child has the greatest count; else the key whose child has the greatest
  \<open>selection_strategy\<close>. The temperature is a number here (the parameter is documented as
  "positive or zero"); the default \<open>None\<close> of the Python signature is not modelled.
\<close>

definition select_action :: "real \<Rightarrow> store \<Rightarrow> addr \<Rightarrow> action option" where
  "select_action temperature s self =
     (if children (s ! self) \<noteq> [] then
        (if temperature = 0 then
           Some (max_from (\<lambda>key. count (s ! child (s ! self) key))
                   (hd (keys (s ! self))) (tl (keys (s ! self))))
         else
           Some (max_from (\<lambda>key. selection_strategy temperature (s ! child (s ! self) key))
                   (hd (keys (s ! self))) (tl (keys (s ! self)))))
      else None)"

section \<open>Expansion\<close>

text \<open>
  \<open>self.children[a] = Node(self, p)\<close> for an action \<open>a\<close> that is not yet a key: the new node
  takes the next address and the entry is added at the end of the dictionary.
\<close>

definition new_child :: "addr \<Rightarrow> action \<Rightarrow> real \<Rightarrow> store \<Rightarrow> store" where
  "new_child self a p s =
     (s @ [Node (Some self) p])
       [self := (s ! self)\<lparr>children := children (s ! self) @ [(a, length s)]\<rparr>]"

text \<open>
  The loop of \<open>Node.expand\<close>, \<open>for i in range(len(actions))\<close>, from index \<open>i\<close> on: an action
  that is already a key is skipped, and for a new one \<open>probabilities[i]\<close> is read, which
  raises \<open>IndexError\<close> when there are not that many probabilities.
\<close>

fun expand_from :: "nat \<Rightarrow> addr \<Rightarrow> action list \<Rightarrow> real list \<Rightarrow> store \<Rightarrow> error + store" where
  "expand_from i self [] probabilities s = Inr s"
| "expand_from i self (a # actions) probabilities s =
     (if map_of (children (s ! self)) a \<noteq> None then
        expand_from (Suc i) self actions probabilities s
      else if i < length probabilities then
        expand_from (Suc i) self actions probabilities (new_child self a (probabilities ! i) s)
      else Inl IndexError)"

text \<open>
  \<open>Node.expand(actions_distribution)\<close> unpacks the pair and runs the loop.
\<close>

definition expand :: "action list \<times> real list \<Rightarrow> addr \<Rightarrow> store \<Rightarrow> error + store" where
  "expand actions_distribution self s =
     (case actions_distribution of (actions, probabilities) \<Rightarrow>
        expand_from 0 self actions probabilities s)"

section \<open>Converting visit counts to priors\<close>

text \<open>
  A loop over the children of a node whose body may not return.
\<close>

fun for_children :: "(addr \<Rightarrow> store \<Rightarrow> store option) \<Rightarrow> addr list \<Rightarrow> store \<Rightarrow> store option" where
  "for_children body [] s = Some s"
| "for_children body (c # cs) s =
     (case body c s of None \<Rightarrow> None | Some s' \<Rightarrow> for_children body cs s')"

text \<open>
  \<open>Node.convert_visits_to_prior_in_branch(regularization)\<close>. The first argument bounds the
  depth of the recursion; \<open>None\<close> means that the bound was reached. The count of the node is
  reset, \<open>total_count\<close> sums \<open>child.count + 1\<close> over the children, and each child in turn gets
  the prior \<open>regularization*(child.count+1)/total_count + regularization/len(self.children)\<close>
  and is converted by \<open>child.convert_visits_to_prior_in_branch()\<close>: the recursive call passes
  no argument, so it runs with the default \<open>regularization=0.5\<close>.
\<close>

fun convert_visits_to_prior_in_branch :: "nat \<Rightarrow> real \<Rightarrow> addr \<Rightarrow> store \<Rightarrow> store option" where
  "convert_visits_to_prior_in_branch 0 regularization self s = None"
| "convert_visits_to_prior_in_branch (Suc fuel) regularization self s =
     (let s1 = s[self := (s ! self)\<lparr>count := 0\<rparr>];
          total_count = sum_list (map (\<lambda>c. count (s1 ! c) + 1) (map snd (children (s1 ! self))))
      in for_children
           (\<lambda>c s2. convert_visits_to_prior_in_branch fuel (1/2) c
              (s2[c := (s2 ! c)\<lparr>prior :=
                    regularization * (real (count (s2 ! c)) + 1) / real total_count
                    + regularization / real (length (children (s2 ! self)))\<rparr>]))
           (map snd (children (s1 ! self))) s1)"

section \<open>The search engine\<close>

text \<open>
  The stores that the operations build: children have greater addresses than their parent,
  inside the store, and a parent reference points to a smaller address. A new node has a
  fresh address and \<open>expand\<close> adds children with fresh addresses only, so every store reached
  from a single root node is of this form.
\<close>

definition wf_store :: "store \<Rightarrow> bool" where
  "wf_store s \<longleftrightarrow>
     (\<forall>i < length s.
        (\<forall>(a, c) \<in> set (children (s ! i)). i < c \<and> c < length s)
        \<and> (\<forall>p. parent (s ! i) = Some p \<longrightarrow> p < i))"

text \<open>
  What the engine uses and does not define: \<open>state.step(action)\<close>, which gives a reward, the
  terminal flag and the next state of the environment; the copy of the environment made for
  each iteration (\<open>unwrapped\<close>, \<open>simplified()\<close> where there is one, deep copy); the sampling
  \<open>np_random.choice(actions, 1, p=probabilities)[0]\<close> of the random generator, which may raise;
  the substitution of the vehicle model, which may raise; the keys of \<open>state.ACTIONS\<close>.
\<close>

record ('e, 'g, 'm) world =
  env_step :: "'e \<Rightarrow> action \<Rightarrow> real \<times> bool \<times> 'e"
  snapshot :: "'e \<Rightarrow> 'e"
  choice :: "'g \<Rightarrow> action list \<Rightarrow> real list \<Rightarrow> error + action \<times> 'g"
  change_agent_model :: "'e \<Rightarrow> 'm \<Rightarrow> error + 'e"
  ACTIONS :: "'e \<Rightarrow> action list"

text \<open>
  An \<open>MCTS\<close> object, with the store of its nodes: \<open>root\<close> is the address of the root.
\<close>

record ('e, 'g) MCTS =
  root :: addr
  nodes :: store
  prior_policy :: "'e \<Rightarrow> action list \<times> real list"
  rollout_policy :: "'e \<Rightarrow> action list \<times> real list"
  iterations :: nat
  temperature :: real
  max_depth :: nat
  np_random :: 'g

text \<open>
  Sequencing of calls that may raise or not return.
\<close>

definition bind_res :: "(error + 'a) option \<Rightarrow> ('a \<Rightarrow> (error + 'b) option) \<Rightarrow> (error + 'b) option" where
  "bind_res r f = (case r of None \<Rightarrow> None | Some (Inl e) \<Rightarrow> Some (Inl e) | Some (Inr x) \<Rightarrow> f x)"

text \<open>
  The selection loop of \<open>MCTS.run\<close>:
  \<^verbatim>\<open>while depth > 0 and node.children and not terminal\<close>: select an action with the
  temperature of the engine, step the state, add the reward, go to the child, decrement the
  depth. It returns the node, the state, the reward, the depth and the terminal flag reached.
  \<open>select_action\<close> on a node with children returns one of its keys, so the two branches for
  a missing key are never taken.
\<close>

fun descend ::
  "('e, 'g, 'm) world \<Rightarrow> real \<Rightarrow> store \<Rightarrow> nat \<Rightarrow> addr \<Rightarrow> 'e \<Rightarrow> real \<Rightarrow> bool
   \<Rightarrow> error + addr \<times> 'e \<times> real \<times> nat \<times> bool" where
  "descend w t s 0 node state total_reward terminal = Inr (node, state, total_reward, 0, terminal)"
| "descend w t s (Suc depth) node state total_reward terminal =
     (if children (s ! node) \<noteq> [] \<and> \<not> terminal then
        (case select_action t s node of
           None \<Rightarrow> Inl KeyError
         | Some a \<Rightarrow>
             (case env_step w state a of (reward, terminal', state') \<Rightarrow>
                (case map_of (children (s ! node)) a of
                   None \<Rightarrow> Inl KeyError
                 | Some c \<Rightarrow> descend w t s depth c state' (total_reward + reward) terminal')))
      else Inr (node, state, total_reward, Suc depth, terminal))"

text \<open>
  \<open>MCTS.evaluate\<close>: at most \<open>limit\<close> steps, each with an action sampled from the rollout
  policy, stopping at a terminal state; it returns the total reward.
\<close>

fun evaluate ::
  "('e, 'g, 'm) world \<Rightarrow> ('e \<Rightarrow> action list \<times> real list) \<Rightarrow> nat \<Rightarrow> 'e \<Rightarrow> real \<Rightarrow> 'g
   \<Rightarrow> error + real \<times> 'g" where
  "evaluate w policy 0 state total_reward g = Inr (total_reward, g)"
| "evaluate w policy (Suc limit) state total_reward g =
     (case policy state of (actions, probabilities) \<Rightarrow>
        (case choice w g actions probabilities of
           Inl err \<Rightarrow> Inl err
         | Inr (a, g') \<Rightarrow>
             (case env_step w state a of (reward, terminal, state') \<Rightarrow>
                if terminal then Inr (total_reward + reward, g')
                else evaluate w policy limit state' (total_reward + reward) g')))"

text \<open>
  \<open>MCTS.run\<close>: selection; expansion of the node reached if it has no children and the
  trajectory is not terminal or the node is the root; evaluation unless terminal, with the
  remaining depth as limit; \<open>update_branch\<close> from the node reached.
\<close>

definition run :: "('e, 'g, 'm) world \<Rightarrow> 'e \<Rightarrow> ('e, 'g) MCTS \<Rightarrow> (error + ('e, 'g) MCTS) option" where
  "run w state m =
     (case descend w (temperature m) (nodes m) (max_depth m) (root m) state 0 False of
        Inl err \<Rightarrow> Some (Inl err)
      | Inr (node, state', total_reward, depth, terminal) \<Rightarrow>
          (case (if children (nodes m ! node) = [] \<and> (\<not> terminal \<or> node = root m)
                 then expand (prior_policy m state') node (nodes m) else Inr (nodes m)) of
             Inl err \<Rightarrow> Some (Inl err)
           | Inr s1 \<Rightarrow>
               (case (if \<not> terminal
                      then evaluate w (rollout_policy m) depth state' total_reward (np_random m)
                      else Inr (total_reward, np_random m)) of
                  Inl err \<Rightarrow> Some (Inl err)
                | Inr (total_reward', g') \<Rightarrow>
                    (case update_branch total_reward' node s1 of
                       None \<Rightarrow> None
                     | Some s2 \<Rightarrow> Some (Inr (m\<lparr>nodes := s2, np_random := g'\<rparr>))))))"

text \<open>
  The loop of \<open>MCTS.plan\<close>: one \<open>run\<close> for each iteration, each on a fresh copy of the state.
\<close>

fun iterate ::
  "('e, 'g, 'm) world \<Rightarrow> 'e \<Rightarrow> nat \<Rightarrow> ('e, 'g) MCTS \<Rightarrow> (error + ('e, 'g) MCTS) option" where
  "iterate w state 0 m = Some (Inr m)"
| "iterate w state (Suc n) m = bind_res (run w (snapshot w state) m) (iterate w state n)"

text \<open>
  The loop of \<open>MCTS.get_plan\<close>: while the node has children, select with temperature 0,
  append the action, go to the child.
\<close>

partial_function (option) get_plan_from ::
  "store \<Rightarrow> addr \<Rightarrow> action list \<Rightarrow> (error + action list) option" where
  "get_plan_from s node actions =
     (if children (s ! node) \<noteq> [] then
        (case select_action 0 s node of
           None \<Rightarrow> Some (Inl KeyError)
         | Some a \<Rightarrow>
             (case map_of (children (s ! node)) a of
                None \<Rightarrow> Some (Inl KeyError)
              | Some c \<Rightarrow> get_plan_from s c (actions @ [a])))
      else Some (Inr actions))"

declare get_plan_from.simps [code]

text \<open>
  \<open>MCTS.get_plan\<close> starts at the root with no action.
\<close>

definition get_plan :: "('e, 'g) MCTS \<Rightarrow> (error + action list) option" where
  "get_plan m = get_plan_from (nodes m) (root m) []"

text \<open>
  \<open>MCTS.plan\<close>: the iterations, then \<open>get_plan\<close>.
\<close>

definition MCTS_plan ::
  "('e, 'g, 'm) world \<Rightarrow> 'e \<Rightarrow> ('e, 'g) MCTS \<Rightarrow> (error + action list \<times> ('e, 'g) MCTS) option" where
  "MCTS_plan w state m =
     bind_res (iterate w state (iterations m) m)
       (\<lambda>m'. bind_res (get_plan m') (\<lambda>actions. Some (Inr (actions, m'))))"

text \<open>
  \<open>MCTS.step_by_reset\<close>: \<open>self.root = Node(None)\<close>.
\<close>

definition step_by_reset :: "('e, 'g) MCTS \<Rightarrow> ('e, 'g) MCTS" where
  "step_by_reset m = m\<lparr>root := length (nodes m), nodes := nodes m @ [Node None 1]\<rparr>"

text \<open>
  \<open>MCTS.step_by_subtree\<close>: the child for the action becomes the root and loses its parent
  reference; without such a child (also for the action \<open>None\<close>) the tree is reset.
\<close>

definition step_by_subtree :: "action option \<Rightarrow> ('e, 'g) MCTS \<Rightarrow> ('e, 'g) MCTS" where
  "step_by_subtree a m =
     (case (case a of None \<Rightarrow> None | Some a' \<Rightarrow> map_of (children (nodes m ! root m)) a') of
        Some c \<Rightarrow> m\<lparr>root := c, nodes := (nodes m)[c := (nodes m ! c)\<lparr>parent := None\<rparr>]\<rparr>
      | None \<Rightarrow> step_by_reset m)"

text \<open>
  \<open>MCTS.step\<close> is \<open>step_by_subtree\<close>.
\<close>

definition MCTS_step :: "action option \<Rightarrow> ('e, 'g) MCTS \<Rightarrow> ('e, 'g) MCTS" where
  "MCTS_step a m = step_by_subtree a m"

section \<open>The planning agent\<close>

text \<open>
  An \<open>MCTSAgent\<close> object.
\<close>

record ('e, 'g, 'm) MCTSAgent =
  env :: 'e
  mcts :: "('e, 'g) MCTS"
  assume_vehicle_type :: "'m option"
  previous_action :: "action option"

text \<open>
  \<open>MCTSAgent.plan\<close>: step the tree by the previous action; if a vehicle type is assumed,
  compute the changed state (it is bound to the local \<open>state\<close> and not used again); plan
  on \<open>self.env\<close>; \<open>self.previous_action = actions[0]\<close>, which raises \<open>IndexError\<close> on an
  empty plan.
\<close>

definition MCTSAgent_plan ::
  "('e, 'g, 'm) world \<Rightarrow> 'e \<Rightarrow> ('e, 'g, 'm) MCTSAgent
   \<Rightarrow> (error + action list \<times> ('e, 'g, 'm) MCTSAgent) option" where
  "MCTSAgent_plan w state ag =
     (let m1 = MCTS_step (previous_action ag) (mcts ag) in
      case (case assume_vehicle_type ag of
              None \<Rightarrow> Inr state
            | Some model \<Rightarrow> change_agent_model w state model) of
        Inl err \<Rightarrow> Some (Inl err)
      | Inr state' \<Rightarrow>
          bind_res (MCTS_plan w (env ag) m1)
            (\<lambda>(actions, m2).
               case actions of
                 [] \<Rightarrow> Some (Inl IndexError)
               | a # _ \<Rightarrow> Some (Inr (actions, ag\<lparr>mcts := m2, previous_action := Some a\<rparr>))))"

text \<open>
  \<open>MCTSAgent.act\<close>: \<open>self.plan(state)[0]\<close>.
\<close>

definition MCTSAgent_act ::
  "('e, 'g, 'm) world \<Rightarrow> 'e \<Rightarrow> ('e, 'g, 'm) MCTSAgent
   \<Rightarrow> (error + action \<times> ('e, 'g, 'm) MCTSAgent) option" where
  "MCTSAgent_act w state ag =
     bind_res (MCTSAgent_plan w state ag)
       (\<lambda>(actions, ag').
          case actions of [] \<Rightarrow> Some (Inl IndexError) | a # _ \<Rightarrow> Some (Inr (a, ag')))"

section \<open>The plan as a walk\<close>

text \<open>
  \<open>greedy_walk s node as\<close>: \<open>as\<close> is the sequence of actions met by walking from \<open>node\<close>,
  taking at each node the action selected with temperature 0, until a node without children.
\<close>

inductive greedy_walk :: "store \<Rightarrow> addr \<Rightarrow> action list \<Rightarrow> bool" where
  leaf: "children (s ! node) = [] \<Longrightarrow> greedy_walk s node []"
| down: "children (s ! node) \<noteq> [] \<Longrightarrow> select_action 0 s node = Some a \<Longrightarrow>
         map_of (children (s ! node)) a = Some c \<Longrightarrow> greedy_walk s c as \<Longrightarrow>
         greedy_walk s node (a # as)"

code_pred greedy_walk .

section \<open>The robust agent\<close>

text \<open>
  The values of \<open>min_action_values\<close>: a number or \<open>np.inf\<close>.
\<close>

datatype bound = Finite real | Infinity

text \<open>
  The order of these values: \<open>np.inf\<close> is the greatest.
\<close>

instantiation bound :: linorder
begin

fun less_eq_bound :: "bound \<Rightarrow> bound \<Rightarrow> bool" where
  "less_eq_bound v Infinity = True"
| "less_eq_bound Infinity (Finite y) = False"
| "less_eq_bound (Finite x) (Finite y) = (x \<le> y)"

definition less_bound :: "bound \<Rightarrow> bound \<Rightarrow> bool" where
  "less_bound v v' = (v \<le> v' \<and> \<not> v' \<le> v)"

instance
proof
  fix x y z :: bound
  show "(x < y) = (x \<le> y \<and> \<not> y \<le> x)" by (simp add: less_bound_def)
  show "x \<le> x" by (cases x) simp_all
  show "x \<le> y \<Longrightarrow> y \<le> z \<Longrightarrow> x \<le> z" by (cases x; cases y; cases z) simp_all
  show "x \<le> y \<Longrightarrow> y \<le> x \<Longrightarrow> x = y" by (cases x; cases y) simp_all
  show "x \<le> y \<or> y \<le> x" by (cases x; cases y) auto
qed

end

text \<open>
  Python's \<open>min(v, x)\<close>: \<open>x\<close> if it is strictly less than \<open>v\<close>, else \<open>v\<close>.
\<close>

definition py_min :: "bound \<Rightarrow> real \<Rightarrow> bound" where
  "py_min v x = (if Finite x < v then Finite x else v)"

text \<open>
  \<open>agent.mcts.root\<close>.
\<close>

definition root_node :: "('e, 'g, 'm) MCTSAgent \<Rightarrow> node" where
  "root_node ag = nodes (mcts ag) ! root (mcts ag)"

text \<open>
  \<open>agent.mcts.root.children[k].value\<close>.
\<close>

definition root_child_value :: "('e, 'g, 'm) MCTSAgent \<Rightarrow> action \<Rightarrow> real" where
  "root_child_value ag k = val (nodes (mcts ag) ! child (root_node ag) k)"

text \<open>
  The first loop of \<open>RobustMCTSAgent.plan\<close>: \<open>agent.plan(state)\<close> for each agent in turn.
\<close>

fun plan_all ::
  "('e, 'g, 'm) world \<Rightarrow> 'e \<Rightarrow> ('e, 'g, 'm) MCTSAgent list
   \<Rightarrow> (error + ('e, 'g, 'm) MCTSAgent list) option" where
  "plan_all w state [] = Some (Inr [])"
| "plan_all w state (ag # ags) =
     bind_res (MCTSAgent_plan w state ag)
       (\<lambda>(actions, ag'). bind_res (plan_all w state ags) (\<lambda>ags'. Some (Inr (ag' # ags'))))"

text \<open>
  One round of the second loop: the dictionary comprehension keeps the keys that are root
  children of the agent and takes \<open>min(v, agent.mcts.root.children[k].value)\<close>.
\<close>

definition min_over_agent ::
  "('e, 'g, 'm) MCTSAgent \<Rightarrow> (action \<times> bound) list \<Rightarrow> (action \<times> bound) list" where
  "min_over_agent ag min_action_values =
     map (\<lambda>(k, v). (k, py_min v (root_child_value ag k)))
       (filter (\<lambda>(k, v). map_of (children (root_node ag)) k \<noteq> None) min_action_values)"

text \<open>
  \<open>RobustMCTSAgent.plan\<close>: all agents plan; \<open>min_action_values\<close> starts with \<open>np.inf\<close> for
  each key of \<open>state.ACTIONS\<close> and goes through one round for each agent; the action is the
  \<open>max\<close> of its keys by value; every agent gets it as previous action; the plan is that one
  action.
\<close>

definition RobustMCTSAgent_plan ::
  "('e, 'g, 'm) world \<Rightarrow> 'e \<Rightarrow> ('e, 'g, 'm) MCTSAgent list
   \<Rightarrow> (error + action list \<times> ('e, 'g, 'm) MCTSAgent list) option" where
  "RobustMCTSAgent_plan w state agents =
     bind_res (plan_all w state agents)
       (\<lambda>planned.
          let min_action_values =
                fold min_over_agent planned (map (\<lambda>k. (k, Infinity)) (ACTIONS w state))
          in case py_max (map fst min_action_values) (\<lambda>key. the (map_of min_action_values key)) of
               Inl err \<Rightarrow> Some (Inl err)
             | Inr a \<Rightarrow> Some (Inr ([a], map (\<lambda>ag. ag\<lparr>previous_action := Some a\<rparr>) planned)))"

text \<open>
  The minimum, over the agents, of the value of the root child for an action, as the
  specification words it; \<open>np.inf\<close> when there is no agent.
\<close>

definition min_value_across :: "('e, 'g, 'm) MCTSAgent list \<Rightarrow> action \<Rightarrow> bound" where
  "min_value_across planned k =
     (if planned = [] then Infinity
      else Finite (Min ((\<lambda>ag. root_child_value ag k) ` set planned)))"

text \<open>
  An agent whose \<open>plan\<close> returns a plan: a well-formed tree, a prior policy that gives a
  probability to each of its actions and offers an action in the state of the agent, a
  rollout policy whose output the sampling accepts, a model substitution that does not raise,
  and at least one iteration.
\<close>

definition agent_ready ::
  "('e, 'g, 'm) world \<Rightarrow> 'e \<Rightarrow> ('e, 'g, 'm) MCTSAgent \<Rightarrow> bool" where
  "agent_ready w state ag \<longleftrightarrow>
     wf_store (nodes (mcts ag)) \<and> root (mcts ag) < length (nodes (mcts ag))
     \<and> (\<forall>st. length (fst (prior_policy (mcts ag) st)) \<le> length (snd (prior_policy (mcts ag) st)))
     \<and> (\<forall>g st. \<exists>a g'. choice w g (fst (rollout_policy (mcts ag) st))
                                 (snd (rollout_policy (mcts ag) st)) = Inr (a, g'))
     \<and> (\<forall>model. assume_vehicle_type ag = Some model \<longrightarrow>
            (\<exists>st'. change_agent_model w state model = Inr st'))
     \<and> 0 < iterations (mcts ag)
     \<and> fst (prior_policy (mcts ag) (snapshot w (env ag))) \<noteq> []"

text \<open>
  The items of \<open>agent.mcts.root.children\<close>, each key with the value of its child.
\<close>

definition root_child_values :: "('e, 'g, 'm) MCTSAgent \<Rightarrow> (action \<times> real) list" where
  "root_child_values ag = map (\<lambda>k. (k, root_child_value ag k)) (keys (root_node ag))"

section \<open>The joint environment\<close>

text \<open>
  An environment as \<open>JointEnv.get_available_actions\<close> sees it: the result of its own
  \<open>get_available_actions()\<close> if it has that attribute, and \<open>action_space.n\<close>.
\<close>

record Env =
  get_available_actions :: "action list option"
  action_space_n :: nat

text \<open>
  \<open>s.get_available_actions() if hasattr(s, "get_available_actions") else range(s.action_space.n)\<close>.
\<close>

definition available_actions :: "Env \<Rightarrow> action list" where
  "available_actions s =
     (case get_available_actions s of Some actions \<Rightarrow> actions | None \<Rightarrow> [0..<action_space_n s])"

text \<open>
  \<open>JointEnv.get_available_actions\<close>: \<open>list(set().union(*[...]))\<close>. The order of the list made
  from the set is not specified, so the result is the set.
\<close>

definition JointEnv_get_available_actions :: "Env list \<Rightarrow> action set" where
  "JointEnv_get_available_actions joint_state =
     fold (\<lambda>actions acc. acc \<union> set actions) (map available_actions joint_state) {}"

section \<open>Example trees, worlds and agents\<close>

text \<open>
  A tree of four nodes: the root 0 with the children 1 (action 0) and 3 (action 1), and
  node 2, the child of node 1.
\<close>

definition ex_tree :: store where
  "ex_tree =
    [\<lparr>parent = None, prior = 1, children = [(0, 1), (1, 3)], count = 2, val = 1\<rparr>,
     \<lparr>parent = Some 0, prior = 1/4, children = [(0, 2)], count = 1, val = 2\<rparr>,
     \<lparr>parent = Some 1, prior = 1, children = [], count = 0, val = 0\<rparr>,
     \<lparr>parent = Some 0, prior = 3/4, children = [], count = 1, val = 1\<rparr>]"

text \<open>
  The same tree after expanding the root with the actions 1, 2, 2.
\<close>

definition ex_tree2 :: store where
  "ex_tree2 =
    [\<lparr>parent = None, prior = 1, children = [(0, 1), (1, 3), (2, 4)], count = 2, val = 1\<rparr>,
     \<lparr>parent = Some 0, prior = 1/4, children = [(0, 2)], count = 1, val = 2\<rparr>,
     \<lparr>parent = Some 1, prior = 1, children = [], count = 0, val = 0\<rparr>,
     \<lparr>parent = Some 0, prior = 3/4, children = [], count = 1, val = 1\<rparr>,
     \<lparr>parent = Some 0, prior = 3/10, children = [], count = 0, val = 0\<rparr>]"

text \<open>
  A tree with visit counts: the children of the root have the counts 2 and 0.
\<close>

definition ex_visited :: store where
  "ex_visited =
    [\<lparr>parent = None, prior = 1, children = [(0, 1), (1, 2)], count = 3, val = 1\<rparr>,
     \<lparr>parent = Some 0, prior = 1/2, children = [(0, 3)], count = 2, val = 1\<rparr>,
     \<lparr>parent = Some 0, prior = 1/2, children = [], count = 0, val = 0\<rparr>,
     \<lparr>parent = Some 1, prior = 1, children = [], count = 1, val = 1\<rparr>]"

text \<open>
  A policy that offers the actions 0 and 1 with probability 1/2 each.
\<close>

definition first_policy :: "nat \<Rightarrow> action list \<times> real list" where
  "first_policy state = ([0, 1], [1/2, 1/2])"

text \<open>
  An environment with one state that never changes and never ends: the action equal to the
  state earns 10, another action \<open>a\<close> earns \<open>a + 1\<close>; sampling takes the first action.
\<close>

definition ex_world :: "(nat, unit, unit) world" where
  "ex_world =
     \<lparr>env_step = (\<lambda>state a. (if a = state then 10 else real a + 1, False, state)),
      snapshot = (\<lambda>state. state),
      choice = (\<lambda>g actions probabilities.
                  case actions of [] \<Rightarrow> Inl ValueError | a # _ \<Rightarrow> Inr (a, g)),
      change_agent_model = (\<lambda>state model. Inr state),
      ACTIONS = (\<lambda>state. [0, 1])\<rparr>"

text \<open>
  A new agent with \<open>n\<close> iterations on that environment in the given state.
\<close>

definition ex_agent :: "nat \<Rightarrow> nat \<Rightarrow> (nat, unit, unit) MCTSAgent" where
  "ex_agent n state =
     \<lparr>env = state,
      mcts = \<lparr>root = 0, nodes = [Node None 1], prior_policy = first_policy,
              rollout_policy = first_policy, iterations = n, temperature = 100,
              max_depth = 2, np_random = ()\<rparr>,
      assume_vehicle_type = None, previous_action = None\<rparr>"

text \<open>
  The same environment with action 0 as the only key of \<open>ACTIONS\<close>.
\<close>

definition ex_world_narrow :: "(nat, unit, unit) world" where
  "ex_world_narrow = ex_world\<lparr>ACTIONS := (\<lambda>state. [0])\<rparr>"

text \<open>
  The same environment with the keys 2 and 3 of \<open>ACTIONS\<close>, which no policy offers.
\<close>

definition ex_world_other :: "(nat, unit, unit) world" where
  "ex_world_other = ex_world\<lparr>ACTIONS := (\<lambda>state. [2, 3])\<rparr>"

text \<open>
  Three environments: two with an availability query, one without.
\<close>

definition ex_envs :: "Env list" where
  "ex_envs =
     [\<lparr>get_available_actions = Some [0, 1], action_space_n = 5\<rparr>,
      \<lparr>get_available_actions = Some [1, 2], action_space_n = 5\<rparr>,
      \<lparr>get_available_actions = None, action_space_n = 4\<rparr>]"

section \<open>C1: the running mean\<close>

lemma count_update: "count (update r n) = Suc (count n)"
  by (simp add: update_def Let_def)

lemma count_updates: "count (updates rs n) = count n + length rs"
  by (induction rs arbitrary: n) (simp_all add: count_update)

lemma val_update:
  "val (update r n) * real (Suc (count n)) = val n * real (count n) + r"
  by (simp add: update_def Let_def K_def field_simps)

lemma val_updates:
  "val (updates rs n) * real (count n + length rs) = val n * real (count n) + sum_list rs"
proof (induction rs arbitrary: n)
  case Nil
  show ?case by simp
next
  case (Cons r rs)
  have "val (updates (r # rs) n) * real (count n + length (r # rs))
      = val (updates rs (update r n)) * real (count (update r n) + length rs)"
    by (simp add: count_update)
  also have "\<dots> = val (update r n) * real (count (update r n)) + sum_list rs"
    by (rule Cons.IH)
  also have "\<dots> = (val n * real (count n) + r) + sum_list rs"
    using val_update [of r n] by (simp add: count_update)
  finally show ?case by simp
qed

text \<open>
  C1. A node that has not been visited (a new node, or one whose count was reset) has,
  after \<open>N\<close> calls of \<open>update\<close>, the visit count \<open>N\<close>, and for \<open>N > 0\<close> its value is the
  arithmetic mean of the \<open>N\<close> rewards: their sum divided by \<open>N\<close>. A new node that is never
  updated keeps the value 0.
\<close>

theorem update_running_mean:
  assumes "count n = 0"
  shows "count (updates rs n) = length rs
    \<and> (rs \<noteq> [] \<longrightarrow> val (updates rs n) = sum_list rs / real (length rs))
    \<and> val (updates [] (Node p pr)) = 0"
proof -
  have c: "count (updates rs n) = length rs"
    using assms by (simp add: count_updates)
  have "val (updates rs n) * real (length rs) = sum_list rs"
    using val_updates [of rs n] assms by simp
  then have "rs \<noteq> [] \<longrightarrow> val (updates rs n) = sum_list rs / real (length rs)"
    by (simp add: field_simps)
  with c show ?thesis by (simp add: Node_def)
qed

text \<open>
  Three updates of a new node with the rewards 1, 2 and 6.
\<close>

theorem update_running_mean_witness:
  "count (Node None 1) = 0
   \<and> count (updates [1, 2, 6] (Node None 1)) = 3
   \<and> val (updates [1, 2, 6] (Node None 1)) = 3"
  using update_running_mean [of "Node None 1" "[1, 2, 6]"]
  by (simp add: Node_def)

section \<open>C2: updating a branch\<close>

lemma branch_hd: "branch s i ps \<Longrightarrow> \<exists>qs. ps = i # qs"
  by (induction rule: branch.induct) auto

lemma branch_fun: "branch s i ps \<Longrightarrow> branch s i qs \<Longrightarrow> ps = qs"
proof (induction arbitrary: qs rule: branch.induct)
  case (root self s)
  from root.prems show ?case
  proof (cases rule: branch.cases)
    case root
    then show ?thesis by simp
  next
    case (step p ps)
    with root.hyps show ?thesis by simp
  qed
next
  case (step self s p ps)
  from step.prems show ?case
  proof (cases rule: branch.cases)
    case root
    with step.hyps show ?thesis by simp
  next
    case inner: (step p' ps')
    with step.hyps have "p' = p" by simp
    with inner have "branch s p ps'" by simp
    then have "ps = ps'" by (rule step.IH)
    with inner show ?thesis by simp
  qed
qed

lemma branch_suffix:
  "branch s i ps \<Longrightarrow> j \<in> set ps \<Longrightarrow> \<exists>qs. branch s j qs \<and> length qs \<le> length ps"
proof (induction rule: branch.induct)
  case (root self s)
  from root.prems have "j = self" by simp
  moreover have "branch s self [self]" using root.hyps by (rule branch.root)
  ultimately have "branch s j [self] \<and> length [self] \<le> length [self]" by simp
  then show ?case by (rule exI)
next
  case (step self s p ps)
  show ?case
  proof (cases "j = self")
    case True
    have "branch s self (self # ps)" using step.hyps by (rule branch.step)
    with True have "branch s j (self # ps) \<and> length (self # ps) \<le> length (self # ps)" by simp
    then show ?thesis by (rule exI)
  next
    case False
    with step.prems have "j \<in> set ps" by simp
    with step.IH obtain qs where "branch s j qs" "length qs \<le> length ps" by blast
    then have "branch s j qs \<and> length qs \<le> length (self # ps)" by simp
    then show ?thesis by (rule exI)
  qed
qed

lemma branch_distinct: "branch s i ps \<Longrightarrow> distinct ps"
proof (induction rule: branch.induct)
  case (root self s)
  show ?case by simp
next
  case (step self s p ps)
  have "self \<notin> set ps"
  proof
    assume "self \<in> set ps"
    with step.hyps(3) obtain qs where q: "branch s self qs" "length qs \<le> length ps"
      using branch_suffix by blast
    from branch.step [OF step.hyps] have "branch s self (self # ps)" .
    with q(1) have "qs = self # ps" by (rule branch_fun)
    with q(2) show False by simp
  qed
  with step.IH show ?case by simp
qed

lemma branch_bound: "branch s i ps \<Longrightarrow> \<forall>j \<in> set ps. j < length s"
  by (induction rule: branch.induct) auto

lemma branch_parent_eq:
  "branch s i ps \<Longrightarrow> length s' = length s \<Longrightarrow> \<forall>j < length s. parent (s' ! j) = parent (s ! j)
   \<Longrightarrow> branch s' i ps"
proof (induction rule: branch.induct)
  case (root self s)
  then show ?case by (simp add: branch.root)
next
  case (step self s p ps)
  then show ?case by (simp add: branch.step)
qed

lemma parent_update: "parent (update r n) = parent n"
  by (simp add: update_def Let_def)

lemma update_branch_on_branch:
  "branch s i ps \<Longrightarrow>
   \<exists>s'. update_branch r i s = Some s' \<and> length s' = length s
     \<and> (\<forall>j < length s. s' ! j = (if j \<in> set ps then update r (s ! j) else s ! j))"
proof (induction ps arbitrary: s i)
  case Nil
  then show ?case using branch_hd by blast
next
  case (Cons a ps)
  let ?s1 = "s[i := update r (s ! i)]"
  from Cons.prems show ?case
  proof (cases rule: branch.cases)
    case root
    then show ?thesis
      by (subst update_branch.simps) (simp add: nth_list_update)
  next
    case (step p)
    have par: "\<forall>j < length s. parent (?s1 ! j) = parent (s ! j)"
      using step(2) by (simp add: nth_list_update parent_update)
    have "branch ?s1 p ps"
      using step(4) by (rule branch_parent_eq) (use par in simp_all)
    from Cons.IH [OF this] obtain s' where s': "update_branch r p ?s1 = Some s'"
      "length s' = length s"
      "\<forall>j < length s. s' ! j = (if j \<in> set ps then update r (?s1 ! j) else ?s1 ! j)"
      by auto
    from Cons.prems have "distinct (a # ps)" by (rule branch_distinct)
    with step(1) have notin: "i \<notin> set ps" by simp
    have "update_branch r i s = Some s'"
      using step(3) s'(1) by (subst update_branch.simps) simp
    moreover have "\<forall>j < length s. s' ! j = (if j \<in> set (a # ps) then update r (s ! j) else s ! j)"
      using s'(3) notin step(1) step(2) by (auto simp: nth_list_update)
    ultimately show ?thesis using s'(2) by blast
  qed
qed

text \<open>
  C2. For a node at depth \<open>d\<close>, whose branch \<open>ps\<close> holds the node and its \<open>d\<close> ancestors up
  to the root, \<open>update_branch r\<close> returns, and in the store it returns every node of the
  branch is the result of one \<open>update r\<close> of the node it was and every other node is as it
  was. The branch has \<open>d + 1\<close> different nodes, so each of them is updated once.
\<close>

theorem update_branch_exactly_branch:
  assumes "branch s self ps" and "length ps = Suc d"
  shows "\<exists>s'. update_branch r self s = Some s'
     \<and> length s' = length s
     \<and> hd ps = self \<and> parent (s ! last ps) = None \<and> card (set ps) = Suc d
     \<and> (\<forall>j < length s. s' ! j = (if j \<in> set ps then update r (s ! j) else s ! j))"
proof -
  from assms(1) have "hd ps = self"
    using branch_hd by fastforce
  moreover from assms(1) have "parent (s ! last ps) = None"
    by (induction rule: branch.induct) (auto dest: branch_hd)
  moreover from assms(1) have "distinct ps" by (rule branch_distinct)
  with assms(2) have "card (set ps) = Suc d" by (simp add: distinct_card)
  ultimately show ?thesis
    using update_branch_on_branch [OF assms(1), of r] by blast
qed

text \<open>
  \<open>update_branch\<close> with reward 4 from node 2 of the example tree, at depth 2: the nodes 2, 1
  and 0 are updated, node 3 is not.
\<close>

theorem update_branch_exactly_branch_witness:
  "branch ex_tree 2 [2, 1, 0] \<and> length [2, 1, 0 :: addr] = Suc 2
   \<and> update_branch 4 2 ex_tree = Some
     [\<lparr>parent = None, prior = 1, children = [(0, 1), (1, 3)], count = 3, val = 2\<rparr>,
      \<lparr>parent = Some 0, prior = 1/4, children = [(0, 2)], count = 2, val = 3\<rparr>,
      \<lparr>parent = Some 1, prior = 1, children = [], count = 1, val = 4\<rparr>,
      \<lparr>parent = Some 0, prior = 3/4, children = [], count = 1, val = 1\<rparr>]"
proof -
  have b0: "branch ex_tree 0 [0]"
    by (rule branch.root) (simp_all add: ex_tree_def)
  have b1: "branch ex_tree 1 [1, 0]"
    by (rule branch.step [OF _ _ b0]) (simp_all add: ex_tree_def)
  have b: "branch ex_tree 2 [2, 1, 0]"
    by (rule branch.step [OF _ _ b1]) (simp_all add: ex_tree_def)
  have l: "length [2, 1, 0 :: addr] = Suc 2" by simp
  from update_branch_exactly_branch [OF b l, of 4]
  obtain s' where s': "update_branch 4 2 ex_tree = Some s'" "length s' = length ex_tree"
    "\<forall>j < length ex_tree. s' ! j = (if j \<in> set [2, 1, 0] then update 4 (ex_tree ! j) else ex_tree ! j)"
    by blast
  have "s' = [\<lparr>parent = None, prior = 1, children = [(0, 1), (1, 3)], count = 3, val = 2\<rparr>,
      \<lparr>parent = Some 0, prior = 1/4, children = [(0, 2)], count = 2, val = 3\<rparr>,
      \<lparr>parent = Some 1, prior = 1, children = [], count = 1, val = 4\<rparr>,
      \<lparr>parent = Some 0, prior = 3/4, children = [], count = 1, val = 1\<rparr>]"
    using s'(2) s'(3)
    by (simp add: list_eq_iff_nth_eq ex_tree_def All_less_Suc update_def K_def Let_def
        numeral_eq_Suc less_Suc_eq)
  with b l s'(1) show ?thesis by simp
qed

section \<open>C3: the selected action\<close>

lemma max_from_split:
  "\<forall>y \<in> set pre. key y < key b \<Longrightarrow> \<forall>y \<in> set mid. key y \<le> key b \<Longrightarrow>
   \<exists>pre' post. pre @ b # mid @ xs = pre' @ max_from key b xs # post
     \<and> (\<forall>y \<in> set pre'. key y < key (max_from key b xs))
     \<and> (\<forall>y \<in> set post. key y \<le> key (max_from key b xs))"
proof (induction xs arbitrary: pre b mid)
  case Nil
  then have "pre @ b # mid @ [] = pre @ max_from key b [] # mid
     \<and> (\<forall>y \<in> set pre. key y < key (max_from key b []))
     \<and> (\<forall>y \<in> set mid. key y \<le> key (max_from key b []))"
    by simp
  then show ?case by blast
next
  case (Cons x xs)
  show ?case
  proof (cases "key b < key x")
    case True
    have 1: "\<forall>y \<in> set (pre @ b # mid). key y < key x"
      using True Cons.prems by auto
    have 2: "\<forall>y \<in> set []. key y \<le> key x" by simp
    from Cons.IH [OF 1 2] True show ?thesis by simp
  next
    case False
    have 2: "\<forall>y \<in> set (mid @ [x]). key y \<le> key b"
      using False Cons.prems(2) by auto
    from Cons.IH [OF Cons.prems(1) 2] False show ?thesis by simp
  qed
qed

lemma max_from_first_max:
  "\<exists>pre post. x # xs = pre @ max_from key x xs # post
     \<and> (\<forall>y \<in> set pre. key y < key (max_from key x xs))
     \<and> (\<forall>y \<in> set post. key y \<le> key (max_from key x xs))"
  using max_from_split [of "[]" key x "[]" xs] by simp

lemma max_from_in: "max_from key x xs \<in> set (x # xs)"
proof -
  obtain pre post where "x # xs = pre @ max_from key x xs # post"
    using max_from_first_max [of x xs key] by blast
  then have "set (x # xs) = set (pre @ max_from key x xs # post)" by simp
  then show ?thesis by simp
qed

lemma max_from_ge: "y \<in> set (x # xs) \<Longrightarrow> key y \<le> key (max_from key x xs)"
proof -
  assume y: "y \<in> set (x # xs)"
  obtain pre post where *: "x # xs = pre @ max_from key x xs # post"
     "\<forall>y \<in> set pre. key y < key (max_from key x xs)"
     "\<forall>y \<in> set post. key y \<le> key (max_from key x xs)"
    using max_from_first_max [of x xs key] by blast
  from y *(1) have "y \<in> set (pre @ max_from key x xs # post)" by simp
  with *(2,3) show ?thesis by auto
qed

text \<open>
  C3. \<open>select_action\<close> returns \<open>None\<close> for a node without children. For a node with
  children and temperature 0 it returns a key whose child has the greatest visit count, and
  the first such key in insertion order: every key before it has a child of strictly smaller
  count. For a nonzero temperature, in a tree (every child has a parent), it returns a key
  that maximises \<open>value + temperature * prior / (count + 1)\<close> of the child.
\<close>

theorem select_action_spec:
  "(children (s ! self) = [] \<longrightarrow> select_action temp s self = None)
   \<and> (children (s ! self) \<noteq> [] \<longrightarrow>
        (\<exists>pre a post. select_action 0 s self = Some a
           \<and> keys (s ! self) = pre @ a # post
           \<and> (\<forall>b \<in> set pre. count (s ! child (s ! self) b) < count (s ! child (s ! self) a))
           \<and> (\<forall>b \<in> set post. count (s ! child (s ! self) b) \<le> count (s ! child (s ! self) a))))
   \<and> (children (s ! self) \<noteq> [] \<and> temp \<noteq> 0
        \<and> (\<forall>b \<in> set (keys (s ! self)). parent (s ! child (s ! self) b) \<noteq> None) \<longrightarrow>
        (\<exists>a. select_action temp s self = Some a
           \<and> a \<in> set (keys (s ! self))
           \<and> (\<forall>b \<in> set (keys (s ! self)).
                 val (s ! child (s ! self) b)
                   + temp * prior (s ! child (s ! self) b) / (real (count (s ! child (s ! self) b)) + 1)
               \<le> val (s ! child (s ! self) a)
                   + temp * prior (s ! child (s ! self) a) / (real (count (s ! child (s ! self) a)) + 1))))"
proof (intro conjI impI)
  assume "children (s ! self) = []"
  then show "select_action temp s self = None"
    by (simp add: select_action_def)
next
  assume ne: "children (s ! self) \<noteq> []"
  let ?ks = "keys (s ! self)"
  let ?key = "\<lambda>key. count (s ! child (s ! self) key)"
  from ne have ks: "?ks = hd ?ks # tl ?ks" by (simp add: keys_def)
  obtain pre post where *: "hd ?ks # tl ?ks = pre @ max_from ?key (hd ?ks) (tl ?ks) # post"
     "\<forall>y \<in> set pre. ?key y < ?key (max_from ?key (hd ?ks) (tl ?ks))"
     "\<forall>y \<in> set post. ?key y \<le> ?key (max_from ?key (hd ?ks) (tl ?ks))"
    using max_from_first_max [of "hd ?ks" "tl ?ks" ?key] by blast
  have "select_action 0 s self = Some (max_from ?key (hd ?ks) (tl ?ks))"
    using ne by (simp add: select_action_def)
  moreover have "?ks = pre @ max_from ?key (hd ?ks) (tl ?ks) # post"
    using ks *(1) by simp
  ultimately show "\<exists>pre a post. select_action 0 s self = Some a
           \<and> keys (s ! self) = pre @ a # post
           \<and> (\<forall>b \<in> set pre. count (s ! child (s ! self) b) < count (s ! child (s ! self) a))
           \<and> (\<forall>b \<in> set post. count (s ! child (s ! self) b) \<le> count (s ! child (s ! self) a))"
    using *(2,3) by blast
next
  assume a: "children (s ! self) \<noteq> [] \<and> temp \<noteq> 0
        \<and> (\<forall>b \<in> set (keys (s ! self)). parent (s ! child (s ! self) b) \<noteq> None)"
  let ?ks = "keys (s ! self)"
  let ?key = "\<lambda>key. selection_strategy temp (s ! child (s ! self) key)"
  let ?a = "max_from ?key (hd ?ks) (tl ?ks)"
  from a have ks: "?ks = hd ?ks # tl ?ks" by (simp add: keys_def)
  have sel: "select_action temp s self = Some ?a"
    using a by (simp add: select_action_def)
  have "?a \<in> set (hd ?ks # tl ?ks)" by (rule max_from_in)
  with ks have mem: "?a \<in> set ?ks" by simp
  have ge: "\<forall>b \<in> set ?ks. ?key b \<le> ?key ?a"
  proof
    fix b assume "b \<in> set ?ks"
    with ks have "b \<in> set (hd ?ks # tl ?ks)" by simp
    then show "?key b \<le> ?key ?a" by (rule max_from_ge)
  qed
  have score: "\<forall>b \<in> set ?ks. ?key b = val (s ! child (s ! self) b)
      + temp * prior (s ! child (s ! self) b) / (real (count (s ! child (s ! self) b)) + 1)"
    using a by (auto simp: selection_strategy_def)
  from ge score mem have "\<forall>b \<in> set ?ks.
                 val (s ! child (s ! self) b)
                   + temp * prior (s ! child (s ! self) b) / (real (count (s ! child (s ! self) b)) + 1)
               \<le> val (s ! child (s ! self) ?a)
                   + temp * prior (s ! child (s ! self) ?a) / (real (count (s ! child (s ! self) ?a)) + 1)"
    by simp
  with sel mem show "\<exists>a. select_action temp s self = Some a
           \<and> a \<in> set (keys (s ! self))
           \<and> (\<forall>b \<in> set (keys (s ! self)).
                 val (s ! child (s ! self) b)
                   + temp * prior (s ! child (s ! self) b) / (real (count (s ! child (s ! self) b)) + 1)
               \<le> val (s ! child (s ! self) a)
                   + temp * prior (s ! child (s ! self) a) / (real (count (s ! child (s ! self) a)) + 1))"
    by blast
qed

text \<open>
  In the example tree the children of the root both have count 1: temperature 0 selects the
  first action; temperature 8 selects action 1, whose child has the greater score; node 2 has
  no children.
\<close>

theorem select_action_spec_witness:
  "select_action 3 ex_tree 2 = None
   \<and> select_action 0 ex_tree 0 = Some 0
   \<and> select_action 8 ex_tree 0 = Some 1"
proof -
  have c: "children (ex_tree ! 0) \<noteq> []" "children (ex_tree ! 2) = []"
    by (simp_all add: ex_tree_def)
  have p: "\<forall>b \<in> set (keys (ex_tree ! 0)). parent (ex_tree ! child (ex_tree ! 0) b) \<noteq> None"
    by (simp add: ex_tree_def keys_def child_def)
  from select_action_spec [of ex_tree 2 3] c have 1: "select_action 3 ex_tree 2 = None"
    by simp
  from select_action_spec [of ex_tree 0 8] c p
  obtain a where a: "select_action 8 ex_tree 0 = Some a" by auto
  have "select_action 8 ex_tree 0 = Some 1"
    by (simp add: select_action_def ex_tree_def keys_def child_def selection_strategy_def)
  moreover have "select_action 0 ex_tree 0 = Some 0"
    by (simp add: select_action_def ex_tree_def keys_def child_def)
  ultimately show ?thesis using 1 a by simp
qed

section \<open>C4 and C9: expansion\<close>

lemma length_new_child: "length (new_child self a p s) = Suc (length s)"
  by (simp add: new_child_def)

lemma new_child_other: "j < length s \<Longrightarrow> j \<noteq> self \<Longrightarrow> new_child self a p s ! j = s ! j"
  by (simp add: new_child_def nth_append)

lemma new_child_self:
  "self < length s \<Longrightarrow>
   new_child self a p s ! self = (s ! self)\<lparr>children := children (s ! self) @ [(a, length s)]\<rparr>"
  by (simp add: new_child_def)

lemma new_child_new: "self < length s \<Longrightarrow> new_child self a p s ! length s = Node (Some self) p"
  by (simp add: new_child_def)

lemma expand_from_frame:
  "expand_from i self as ps s = Inr s' \<Longrightarrow> self < length s \<Longrightarrow>
   length s \<le> length s' \<and> (\<forall>j < length s. j \<noteq> self \<longrightarrow> s' ! j = s ! j)
   \<and> (\<exists>news. s' ! self = (s ! self)\<lparr>children := children (s ! self) @ news\<rparr>
        \<and> (\<forall>(a, c) \<in> set news. a \<in> set as \<and> map_of (children (s ! self)) a = None
              \<and> length s \<le> c \<and> c < length s' \<and> (\<exists>p. s' ! c = Node (Some self) p)))"
proof (induction as arbitrary: i s)
  case Nil
  then have "s' = s" by simp
  then have "s' ! self = (s ! self)\<lparr>children := children (s ! self) @ []\<rparr>
        \<and> (\<forall>(a, c) \<in> set []. a \<in> set [] \<and> map_of (children (s ! self)) a = None
              \<and> length s \<le> c \<and> c < length s' \<and> (\<exists>p. s' ! c = Node (Some self) p))"
    by simp
  then have "\<exists>news. s' ! self = (s ! self)\<lparr>children := children (s ! self) @ news\<rparr>
        \<and> (\<forall>(a, c) \<in> set news. a \<in> set [] \<and> map_of (children (s ! self)) a = None
              \<and> length s \<le> c \<and> c < length s' \<and> (\<exists>p. s' ! c = Node (Some self) p))"
    by (rule exI)
  with \<open>s' = s\<close> show ?case by simp
next
  case (Cons a as)
  show ?case
  proof (cases "map_of (children (s ! self)) a \<noteq> None")
    case True
    with Cons.prems(1) have "expand_from (Suc i) self as ps s = Inr s'" by simp
    from Cons.IH [OF this Cons.prems(2)]
    obtain news where l: "length s \<le> length s'"
      and o: "\<forall>j < length s. j \<noteq> self \<longrightarrow> s' ! j = s ! j"
      and n: "s' ! self = (s ! self)\<lparr>children := children (s ! self) @ news\<rparr>"
      and p: "\<forall>(a, c) \<in> set news. a \<in> set as \<and> map_of (children (s ! self)) a = None
              \<and> length s \<le> c \<and> c < length s' \<and> (\<exists>p. s' ! c = Node (Some self) p)"
      by blast
    from p have "\<forall>(a', c) \<in> set news. a' \<in> set (a # as) \<and> map_of (children (s ! self)) a' = None
              \<and> length s \<le> c \<and> c < length s' \<and> (\<exists>p. s' ! c = Node (Some self) p)"
      by fastforce
    with l o n show ?thesis by blast
  next
    case False
    let ?s1 = "new_child self a (ps ! i) s"
    from False Cons.prems(1) have run: "expand_from (Suc i) self as ps ?s1 = Inr s'"
      by (simp split: if_splits)
    have self1: "self < length ?s1" using Cons.prems(2) by (simp add: length_new_child)
    from Cons.IH [OF run self1]
    obtain news where l: "length ?s1 \<le> length s'"
      and o: "\<forall>j < length ?s1. j \<noteq> self \<longrightarrow> s' ! j = ?s1 ! j"
      and n: "s' ! self = (?s1 ! self)\<lparr>children := children (?s1 ! self) @ news\<rparr>"
      and p: "\<forall>(a, c) \<in> set news. a \<in> set as \<and> map_of (children (?s1 ! self)) a = None
              \<and> length ?s1 \<le> c \<and> c < length s' \<and> (\<exists>p. s' ! c = Node (Some self) p)"
      by blast
    have l': "length s \<le> length s'" using l by (simp add: length_new_child)
    have o': "\<forall>j < length s. j \<noteq> self \<longrightarrow> s' ! j = s ! j"
      using o by (simp add: length_new_child new_child_other)
    have n': "s' ! self = (s ! self)\<lparr>children := children (s ! self) @ ((a, length s) # news)\<rparr>"
      using n Cons.prems(2) by (simp add: new_child_self)
    have fresh: "s' ! length s = Node (Some self) (ps ! i)"
      using o Cons.prems(2) by (simp add: length_new_child new_child_new)
    have hd: "a \<in> set (a # as) \<and> map_of (children (s ! self)) a = None
              \<and> length s \<le> length s \<and> length s < length s' \<and> (\<exists>p. s' ! length s = Node (Some self) p)"
      using False l fresh by (auto simp: length_new_child)
    have tl: "\<forall>(a', c) \<in> set news. a' \<in> set (a # as) \<and> map_of (children (s ! self)) a' = None
              \<and> length s \<le> c \<and> c < length s' \<and> (\<exists>p. s' ! c = Node (Some self) p)"
    proof (clarify, intro conjI)
      fix a' c assume m: "(a', c) \<in> set news"
      with p have *: "a' \<in> set as" "map_of (children (?s1 ! self)) a' = None"
        "length ?s1 \<le> c" "c < length s'" "\<exists>p. s' ! c = Node (Some self) p"
        by auto
      show "a' \<in> set (a # as)" using *(1) by simp
      show "map_of (children (s ! self)) a' = None"
        using *(2) Cons.prems(2) by (simp add: new_child_self map_add_def split: option.splits)
      show "length s \<le> c" using *(3) by (simp add: length_new_child)
      show "c < length s'" by (rule *(4))
      show "\<exists>p. s' ! c = Node (Some self) p" by (rule *(5))
    qed
    from hd tl have "\<forall>(a', c) \<in> set ((a, length s) # news).
        a' \<in> set (a # as) \<and> map_of (children (s ! self)) a' = None
              \<and> length s \<le> c \<and> c < length s' \<and> (\<exists>p. s' ! c = Node (Some self) p)"
      by simp
    with l' o' n' show ?thesis by blast
  qed
qed

lemma expand_from_keeps_entry:
  assumes "expand_from i self as ps s = Inr s'" and "self < length s"
    and "map_of (children (s ! self)) a = Some c"
  shows "map_of (children (s' ! self)) a = Some c"
proof -
  from expand_from_frame [OF assms(1,2)]
  obtain news where "s' ! self = (s ! self)\<lparr>children := children (s ! self) @ news\<rparr>"
    by blast
  then have "children (s' ! self) = children (s ! self) @ news" by simp
  with assms(3) show ?thesis by (simp add: map_add_def)
qed

lemma expand_from_covers:
  "expand_from i self as ps s = Inr s' \<Longrightarrow> self < length s \<Longrightarrow>
   \<forall>a \<in> set as. map_of (children (s' ! self)) a \<noteq> None"
proof (induction as arbitrary: i s)
  case Nil
  show ?case by simp
next
  case (Cons a as)
  show ?case
  proof (cases "map_of (children (s ! self)) a \<noteq> None")
    case True
    with Cons.prems(1) have run: "expand_from (Suc i) self as ps s = Inr s'" by simp
    from True obtain c where "map_of (children (s ! self)) a = Some c" by blast
    with run Cons.prems(2) have "map_of (children (s' ! self)) a = Some c"
      by (rule expand_from_keeps_entry)
    with Cons.IH [OF run Cons.prems(2)] show ?thesis by simp
  next
    case False
    let ?s1 = "new_child self a (ps ! i) s"
    from False Cons.prems(1) have run: "expand_from (Suc i) self as ps ?s1 = Inr s'"
      by (simp split: if_splits)
    have self1: "self < length ?s1" using Cons.prems(2) by (simp add: length_new_child)
    have "map_of (children (?s1 ! self)) a = Some (length s)"
      using False Cons.prems(2) by (simp add: new_child_self map_add_def)
    with run self1 have "map_of (children (s' ! self)) a = Some (length s)"
      by (rule expand_from_keeps_entry)
    with Cons.IH [OF run self1] show ?thesis by simp
  qed
qed

lemma expand_from_noop:
  "\<forall>a \<in> set as. map_of (children (s ! self)) a \<noteq> None \<Longrightarrow> expand_from i self as ps s = Inr s"
  by (induction as arbitrary: i) simp_all

lemma expand_from_total:
  "i + length as \<le> length ps \<Longrightarrow> \<exists>s'. expand_from i self as ps s = Inr s'"
proof (induction as arbitrary: i s)
  case Nil
  show ?case by simp
next
  case (Cons a as)
  from Cons.prems have "Suc i + length as \<le> length ps" "i < length ps" by simp_all
  with Cons.IH [of "Suc i"] show ?case by simp
qed

lemma expand_from_error:
  "expand_from i self as ps s = Inl e \<Longrightarrow> e = IndexError \<and> length ps < i + length as"
proof (induction as arbitrary: i s)
  case Nil
  then show ?case by simp
next
  case (Cons a as)
  show ?case
  proof (cases "map_of (children (s ! self)) a \<noteq> None")
    case True
    with Cons.prems have "expand_from (Suc i) self as ps s = Inl e" by simp
    from Cons.IH [OF this] show ?thesis by simp
  next
    case False
    show ?thesis
    proof (cases "i < length ps")
      case True
      with False Cons.prems
      have "expand_from (Suc i) self as ps (new_child self a (ps ! i) s) = Inl e" by simp
      from Cons.IH [OF this] show ?thesis by simp
    next
      case False
      with \<open>\<not> map_of (children (s ! self)) a \<noteq> None\<close> Cons.prems show ?thesis by simp
    qed
  qed
qed

lemma expand_from_prior:
  "expand_from i self as ps s = Inr s' \<Longrightarrow> self < length s \<Longrightarrow> k < length as \<Longrightarrow>
   map_of (children (s ! self)) (as ! k) = None \<Longrightarrow> as ! k \<notin> set (take k as) \<Longrightarrow>
   \<exists>c. map_of (children (s' ! self)) (as ! k) = Some c \<and> length s \<le> c
     \<and> s' ! c = Node (Some self) (ps ! (i + k))"
proof (induction as arbitrary: i s k)
  case Nil
  then show ?case by simp
next
  case (Cons a as)
  let ?s1 = "new_child self a (ps ! i) s"
  have self1: "self < length ?s1" using Cons.prems(2) by (simp add: length_new_child)
  show ?case
  proof (cases k)
    case 0
    with Cons.prems(4) have new: "map_of (children (s ! self)) a = None" by simp
    with Cons.prems(1) have run: "expand_from (Suc i) self as ps ?s1 = Inr s'"
      by (simp split: if_splits)
    have "map_of (children (?s1 ! self)) a = Some (length s)"
      using new Cons.prems(2) by (simp add: new_child_self map_add_def)
    with run self1 have 1: "map_of (children (s' ! self)) a = Some (length s)"
      by (rule expand_from_keeps_entry)
    from expand_from_frame [OF run self1]
    have "\<forall>j < length ?s1. j \<noteq> self \<longrightarrow> s' ! j = ?s1 ! j" by blast
    then have 2: "s' ! length s = Node (Some self) (ps ! i)"
      using Cons.prems(2) by (simp add: length_new_child new_child_new)
    from 0 1 2 show ?thesis by simp
  next
    case (Suc k')
    with Cons.prems(3) have k': "k' < length as" by simp
    from Suc Cons.prems(5) have ne: "as ! k' \<noteq> a" and notin: "as ! k' \<notin> set (take k' as)"
      by auto
    from Suc Cons.prems(4) have none: "map_of (children (s ! self)) (as ! k') = None" by simp
    show ?thesis
    proof (cases "map_of (children (s ! self)) a \<noteq> None")
      case True
      with Cons.prems(1) have run: "expand_from (Suc i) self as ps s = Inr s'" by simp
      from Cons.IH [OF run Cons.prems(2) k' none notin] Suc show ?thesis by simp
    next
      case False
      with Cons.prems(1) have run: "expand_from (Suc i) self as ps ?s1 = Inr s'"
        by (simp split: if_splits)
      have none1: "map_of (children (?s1 ! self)) (as ! k') = None"
        using none ne Cons.prems(2) by (simp add: new_child_self map_add_def)
      from Cons.IH [OF run self1 k' none1 notin]
      obtain c where "map_of (children (s' ! self)) (as ! k') = Some c" "length ?s1 \<le> c"
        "s' ! c = Node (Some self) (ps ! (Suc i + k'))" by blast
      with Suc show ?thesis by (simp add: length_new_child)
    qed
  qed
qed

text \<open>
  C4. A call of \<open>expand\<close> that returns leaves every other node of the store as it was, keeps
  the fields of the expanded node except \<open>children\<close>, and adds to \<open>children\<close>, after the
  entries it had, entries for actions of the distribution that had no child, each with a new
  node. Every action that had a child keeps that child, and the child is unchanged (visit
  count, value, prior and children). A second call with the same actions, whatever the
  probabilities, changes nothing.
\<close>

theorem expand_idempotent:
  assumes "self < length s" and "expand (actions, probabilities) self s = Inr s'"
  shows "length s \<le> length s'
    \<and> (\<forall>j < length s. j \<noteq> self \<longrightarrow> s' ! j = s ! j)
    \<and> (\<exists>news. s' ! self = (s ! self)\<lparr>children := children (s ! self) @ news\<rparr>
         \<and> (\<forall>(a, c) \<in> set news. a \<in> set actions \<and> map_of (children (s ! self)) a = None
               \<and> length s \<le> c \<and> c < length s' \<and> (\<exists>p. s' ! c = Node (Some self) p)))
    \<and> (\<forall>a c. map_of (children (s ! self)) a = Some c \<longrightarrow>
           map_of (children (s' ! self)) a = Some c
           \<and> (c < length s \<and> c \<noteq> self \<longrightarrow> s' ! c = s ! c))
    \<and> expand (actions, probabilities2) self s' = Inr s'"
proof -
  from assms(2) have run: "expand_from 0 self actions probabilities s = Inr s'"
    by (simp add: expand_def)
  note frame = expand_from_frame [OF run assms(1)]
  from frame have l: "length s \<le> length s'" by blast
  from frame have o: "\<forall>j < length s. j \<noteq> self \<longrightarrow> s' ! j = s ! j" by blast
  from frame have n: "\<exists>news. s' ! self = (s ! self)\<lparr>children := children (s ! self) @ news\<rparr>
         \<and> (\<forall>(a, c) \<in> set news. a \<in> set actions \<and> map_of (children (s ! self)) a = None
               \<and> length s \<le> c \<and> c < length s' \<and> (\<exists>p. s' ! c = Node (Some self) p))"
    by blast
  have k: "\<forall>a c. map_of (children (s ! self)) a = Some c \<longrightarrow>
           map_of (children (s' ! self)) a = Some c
           \<and> (c < length s \<and> c \<noteq> self \<longrightarrow> s' ! c = s ! c)"
    using expand_from_keeps_entry [OF run assms(1)] o by blast
  have "\<forall>a \<in> set actions. map_of (children (s' ! self)) a \<noteq> None"
    using run assms(1) by (rule expand_from_covers)
  then have "expand_from 0 self actions probabilities2 s' = Inr s'"
    by (rule expand_from_noop)
  then have i: "expand (actions, probabilities2) self s' = Inr s'"
    by (simp add: expand_def)
  from l o n k i show ?thesis by blast
qed

text \<open>
  The root of the example tree has children for the actions 0 and 1; expanding it with the
  actions 1, 2, 2 adds one child, for action 2.
\<close>

theorem expand_idempotent_witness:
  "0 < length ex_tree
   \<and> expand ([1, 2, 2], [1/5, 3/10, 1/2]) 0 ex_tree = Inr ex_tree2
   \<and> ex_tree2 ! 1 = ex_tree ! 1 \<and> ex_tree2 ! 3 = ex_tree ! 3
   \<and> expand ([1, 2, 2], [1, 1, 1]) 0 ex_tree2 = Inr ex_tree2"
proof -
  have l: "0 < length ex_tree" by (simp add: ex_tree_def)
  have e: "expand ([1, 2, 2], [1/5, 3/10, 1/2]) 0 ex_tree = Inr ex_tree2"
    by (simp add: expand_def ex_tree_def ex_tree2_def new_child_def Node_def)
  from expand_idempotent [OF l e, of "[1, 1, 1]"]
  have "(\<forall>j < length ex_tree. j \<noteq> 0 \<longrightarrow> ex_tree2 ! j = ex_tree ! j)
    \<and> expand ([1, 2, 2], [1, 1, 1]) 0 ex_tree2 = Inr ex_tree2"
    by blast
  moreover have "length ex_tree = 4" by (simp add: ex_tree_def)
  ultimately show ?thesis using l e by simp
qed

text \<open>
  C9, as stated, fails: a policy output with three probabilities for two actions, one of them
  negative, their sum 11, is consumed by \<open>expand\<close> without error, and the children get the
  priors \<open>-1\<close> and 5.
\<close>

theorem expand_unvalidated_counterexample:
  "length [0, 1 :: action] \<noteq> length [-1, 5, 7 :: real]
   \<and> sum_list [-1, 5, 7 :: real] \<noteq> 1
   \<and> expand ([0, 1], [-1, 5, 7]) 0 [Node None 1] =
       Inr [\<lparr>parent = None, prior = 1, children = [(0, 1), (1, 2)], count = 0, val = 0\<rparr>,
            Node (Some 0) (-1), Node (Some 0) 5]"
  by (simp add: expand_def new_child_def Node_def)

text \<open>
  C9, amended. \<open>expand\<close> does not validate the policy output. With at least as many
  probabilities as actions it returns without error, whatever the probabilities are, and
  every child it creates has as prior the probability at the index of its action, as given.
  The only error of \<open>expand\<close> is the \<open>IndexError\<close> of reading a missing probability, which
  needs fewer probabilities than actions.
\<close>

theorem expand_accepts_unvalidated:
  assumes "self < length s" and "length actions \<le> length probabilities"
  shows "(\<exists>s'. expand (actions, probabilities) self s = Inr s'
      \<and> (\<forall>k < length actions.
            map_of (children (s ! self)) (actions ! k) = None \<and> actions ! k \<notin> set (take k actions) \<longrightarrow>
            (\<exists>c. map_of (children (s' ! self)) (actions ! k) = Some c
                 \<and> s' ! c = Node (Some self) (probabilities ! k))))
    \<and> (\<forall>actions2 probabilities2 e. expand (actions2, probabilities2) self s = Inl e \<longrightarrow>
          e = IndexError \<and> length probabilities2 < length actions2)"
proof -
  from assms(2) obtain s' where run: "expand_from 0 self actions probabilities s = Inr s'"
    using expand_from_total [of 0 actions probabilities self s] by auto
  have "\<forall>k < length actions.
            map_of (children (s ! self)) (actions ! k) = None \<and> actions ! k \<notin> set (take k actions) \<longrightarrow>
            (\<exists>c. map_of (children (s' ! self)) (actions ! k) = Some c
                 \<and> s' ! c = Node (Some self) (probabilities ! k))"
  proof (intro allI impI)
    fix k assume k: "k < length actions"
      and "map_of (children (s ! self)) (actions ! k) = None \<and> actions ! k \<notin> set (take k actions)"
    then have "map_of (children (s ! self)) (actions ! k) = None"
      "actions ! k \<notin> set (take k actions)" by simp_all
    from expand_from_prior [OF run assms(1) k this]
    show "\<exists>c. map_of (children (s' ! self)) (actions ! k) = Some c
                 \<and> s' ! c = Node (Some self) (probabilities ! k)"
      by auto
  qed
  with run have 1: "\<exists>s'. expand (actions, probabilities) self s = Inr s'
      \<and> (\<forall>k < length actions.
            map_of (children (s ! self)) (actions ! k) = None \<and> actions ! k \<notin> set (take k actions) \<longrightarrow>
            (\<exists>c. map_of (children (s' ! self)) (actions ! k) = Some c
                 \<and> s' ! c = Node (Some self) (probabilities ! k)))"
    by (auto simp: expand_def)
  have 2: "\<forall>actions2 probabilities2 e. expand (actions2, probabilities2) self s = Inl e \<longrightarrow>
          e = IndexError \<and> length probabilities2 < length actions2"
    using expand_from_error [of 0 self _ _ s] by (auto simp: expand_def)
  from 1 2 show ?thesis by blast
qed

text \<open>
  Two actions with the probabilities \<open>-2\<close>, 4, 9; and with the single probability \<open>-2\<close>.
\<close>

theorem expand_accepts_unvalidated_witness:
  "0 < length [Node None 1] \<and> length [5, 3 :: action] \<le> length [-2, 4, 9 :: real]
   \<and> expand ([5, 3], [-2, 4, 9]) 0 [Node None 1] =
       Inr [\<lparr>parent = None, prior = 1, children = [(5, 1), (3, 2)], count = 0, val = 0\<rparr>,
            Node (Some 0) (-2), Node (Some 0) 4]
   \<and> expand ([5, 3], [-2]) 0 [Node None 1] = Inl IndexError"
proof -
  have 1: "0 < length [Node None 1]" by simp
  have 2: "length [5, 3 :: action] \<le> length [-2, 4, 9 :: real]" by simp
  from expand_accepts_unvalidated [OF 1 2]
  obtain s' where "expand ([5, 3], [-2, 4, 9]) 0 [Node None 1] = Inr s'" by blast
  moreover have "expand ([5, 3], [-2, 4, 9]) 0 [Node None 1] =
       Inr [\<lparr>parent = None, prior = 1, children = [(5, 1), (3, 2)], count = 0, val = 0\<rparr>,
            Node (Some 0) (-2), Node (Some 0) 4]"
    by (simp add: expand_def new_child_def Node_def)
  moreover have "expand ([5, 3], [-2]) 0 [Node None 1] = Inl IndexError"
    by (simp add: expand_def new_child_def Node_def)
  ultimately show ?thesis by simp
qed

section \<open>C5 and C6: priors from visit counts\<close>

text \<open>
  C5. With regularization 1 the two children of the root of the example tree, with the
  visit counts 2 and 0, get the priors 5/4 and 3/4: they differ, and they sum to 2.
\<close>

theorem convert_reg1_not_uniform:
  "map_option (\<lambda>s'. (prior (s' ! 1), prior (s' ! 2)))
     (convert_visits_to_prior_in_branch 3 1 0 ex_visited) = Some (5/4, 3/4)"
  by (simp add: ex_visited_def numeral_3_eq_3 Let_def)

text \<open>
  C6. With regularization 1 the grandchild of the root (node 3, the only child of node 1,
  with visit count 1) gets the prior \<open>0.5 * 2/2 + 0.5/1 = 1\<close>, not \<open>1 * 2/2 + 1/1 = 2\<close>: below
  the node of the call the regularization is 0.5.
\<close>

theorem convert_recursion_default_reg:
  "convert_visits_to_prior_in_branch 3 1 0 ex_visited = Some
    [\<lparr>parent = None, prior = 1, children = [(0, 1), (1, 2)], count = 0, val = 1\<rparr>,
     \<lparr>parent = Some 0, prior = 5/4, children = [(0, 3)], count = 0, val = 1\<rparr>,
     \<lparr>parent = Some 0, prior = 3/4, children = [], count = 0, val = 0\<rparr>,
     \<lparr>parent = Some 1, prior = 1, children = [], count = 0, val = 1\<rparr>]"
  by (simp add: ex_visited_def numeral_3_eq_3 Let_def)

section \<open>C8: planning with any number of iterations\<close>

lemma children_update: "children (update r n) = children n"
  by (simp add: update_def Let_def)

lemma wf_store_same_shape:
  assumes "wf_store s" and "length s' = length s"
    and "\<forall>j < length s. children (s' ! j) = children (s ! j) \<and> parent (s' ! j) = parent (s ! j)"
  shows "wf_store s'"
  using assms unfolding wf_store_def by simp

lemma wf_store_branch: "wf_store s \<Longrightarrow> i < length s \<Longrightarrow> \<exists>ps. branch s i ps"
proof (induction i rule: less_induct)
  case (less i)
  show ?case
  proof (cases "parent (s ! i)")
    case None
    with less.prems(2) have "branch s i [i]" by (simp add: branch.root)
    then show ?thesis by (rule exI)
  next
    case (Some p)
    with less.prems have "p < i" by (simp add: wf_store_def)
    with less.prems(2) have "p < length s" by simp
    from less.IH [OF \<open>p < i\<close> less.prems(1) this] obtain ps where "branch s p ps" by blast
    with less.prems(2) Some have "branch s i (i # ps)" by (simp add: branch.step)
    then show ?thesis by (rule exI)
  qed
qed

lemma update_branch_wf:
  assumes "wf_store s" and "i < length s"
  shows "\<exists>s'. update_branch r i s = Some s' \<and> length s' = length s
     \<and> (\<forall>j < length s. children (s' ! j) = children (s ! j) \<and> parent (s' ! j) = parent (s ! j))"
proof -
  from wf_store_branch [OF assms] obtain ps where "branch s i ps" by blast
  from update_branch_on_branch [OF this, of r]
  obtain s' where s': "update_branch r i s = Some s'" "length s' = length s"
    "\<forall>j < length s. s' ! j = (if j \<in> set ps then update r (s ! j) else s ! j)"
    by blast
  from s'(3) have "\<forall>j < length s. children (s' ! j) = children (s ! j) \<and> parent (s' ! j) = parent (s ! j)"
    by (simp add: children_update parent_update)
  with s'(1,2) show ?thesis by blast
qed

lemma expand_from_fresh:
  "expand_from i self as ps s = Inr s' \<Longrightarrow> self < length s \<Longrightarrow>
   \<forall>j. length s \<le> j \<and> j < length s' \<longrightarrow> (\<exists>p. s' ! j = Node (Some self) p)"
proof (induction as arbitrary: i s)
  case Nil
  then show ?case by auto
next
  case (Cons a as)
  show ?case
  proof (cases "map_of (children (s ! self)) a \<noteq> None")
    case True
    with Cons.prems(1) have "expand_from (Suc i) self as ps s = Inr s'" by simp
    from Cons.IH [OF this Cons.prems(2)] show ?thesis .
  next
    case False
    let ?s1 = "new_child self a (ps ! i) s"
    from False Cons.prems(1) have run: "expand_from (Suc i) self as ps ?s1 = Inr s'"
      by (simp split: if_splits)
    have self1: "self < length ?s1" using Cons.prems(2) by (simp add: length_new_child)
    note IH = Cons.IH [OF run self1]
    from expand_from_frame [OF run self1]
    have o: "\<forall>j < length ?s1. j \<noteq> self \<longrightarrow> s' ! j = ?s1 ! j" by blast
    show ?thesis
    proof (intro allI impI)
      fix j assume j: "length s \<le> j \<and> j < length s'"
      show "\<exists>p. s' ! j = Node (Some self) p"
      proof (cases "j = length s")
        case True
        with o Cons.prems(2) have "s' ! j = Node (Some self) (ps ! i)"
          by (simp add: length_new_child new_child_new)
        then show ?thesis by (rule exI)
      next
        case False
        with j have "length ?s1 \<le> j \<and> j < length s'" by (simp add: length_new_child)
        with IH show ?thesis by blast
      qed
    qed
  qed
qed

lemma expand_wf:
  assumes "wf_store s" and "self < length s" and "expand d self s = Inr s'"
  shows "wf_store s' \<and> length s \<le> length s'
    \<and> (\<forall>j < length s. children (s ! j) \<noteq> [] \<longrightarrow> children (s' ! j) \<noteq> [])"
proof -
  obtain as ps where d: "d = (as, ps)" by (cases d)
  with assms(3) have run: "expand_from 0 self as ps s = Inr s'" by (simp add: expand_def)
  from expand_from_frame [OF run assms(2)]
  obtain news where l: "length s \<le> length s'"
    and o: "\<forall>j < length s. j \<noteq> self \<longrightarrow> s' ! j = s ! j"
    and n: "s' ! self = (s ! self)\<lparr>children := children (s ! self) @ news\<rparr>"
    and p: "\<forall>(a, c) \<in> set news. a \<in> set as \<and> map_of (children (s ! self)) a = None
              \<and> length s \<le> c \<and> c < length s' \<and> (\<exists>p. s' ! c = Node (Some self) p)"
    by blast
  note fresh = expand_from_fresh [OF run assms(2)]
  have "wf_store s'"
    unfolding wf_store_def
  proof (intro allI impI)
    fix i assume i: "i < length s'"
    consider (self) "i = self" | (old) "i < length s" "i \<noteq> self" | (new) "length s \<le> i"
      by fastforce
    then show "(\<forall>(a, c) \<in> set (children (s' ! i)). i < c \<and> c < length s')
        \<and> (\<forall>p. parent (s' ! i) = Some p \<longrightarrow> p < i)"
    proof cases
      case self
      have 1: "\<forall>(a, c) \<in> set (children (s ! self)). self < c \<and> c < length s'"
        using assms(1,2) l by (fastforce simp: wf_store_def)
      have 2: "\<forall>(a, c) \<in> set news. self < c \<and> c < length s'"
        using p assms(2) by fastforce
      have 3: "\<forall>p. parent (s ! self) = Some p \<longrightarrow> p < self"
        using assms(1,2) by (simp add: wf_store_def)
      from 1 2 3 self n show ?thesis by auto
    next
      case old
      with o have e: "s' ! i = s ! i" by simp
      have "(\<forall>(a, c) \<in> set (children (s ! i)). i < c \<and> c < length s')"
        using assms(1) old(1) l by (fastforce simp: wf_store_def)
      moreover have "\<forall>p. parent (s ! i) = Some p \<longrightarrow> p < i"
        using assms(1) old(1) by (simp add: wf_store_def)
      ultimately show ?thesis using e by simp
    next
      case new
      with fresh i obtain p where "s' ! i = Node (Some self) p" by blast
      with new assms(2) show ?thesis by (simp add: Node_def)
    qed
  qed
  moreover have "\<forall>j < length s. children (s ! j) \<noteq> [] \<longrightarrow> children (s' ! j) \<noteq> []"
  proof (intro allI impI)
    fix j assume "j < length s" "children (s ! j) \<noteq> []"
    then show "children (s' ! j) \<noteq> []"
      using o n by (cases "j = self") simp_all
  qed
  ultimately show ?thesis using l by blast
qed

lemma expand_nonempty:
  assumes "self < length s" and "expand d self s = Inr s'" and "fst d \<noteq> []"
  shows "children (s' ! self) \<noteq> []"
proof -
  obtain as ps where d: "d = (as, ps)" by (cases d)
  with assms(2) have run: "expand_from 0 self as ps s = Inr s'" by (simp add: expand_def)
  from assms(3) d obtain a where "a \<in> set as" by (cases as) auto
  with expand_from_covers [OF run assms(1)]
  have "map_of (children (s' ! self)) a \<noteq> None" by blast
  then show ?thesis by auto
qed

lemma expand_ok:
  assumes "length (fst d) \<le> length (snd d)"
  shows "\<exists>s'. expand d self s = Inr s'"
proof -
  obtain as ps where d: "d = (as, ps)" by (cases d)
  with assms show ?thesis
    using expand_from_total [of 0 as ps self s] by (simp add: expand_def)
qed

lemma select_action_child:
  assumes "children (s ! i) \<noteq> []"
  shows "\<exists>a c. select_action t s i = Some a \<and> map_of (children (s ! i)) a = Some c
     \<and> (a, c) \<in> set (children (s ! i))"
proof -
  let ?ks = "keys (s ! i)"
  from assms have ks: "?ks = hd ?ks # tl ?ks" by (simp add: keys_def)
  obtain a where a: "select_action t s i = Some a" "a \<in> set (hd ?ks # tl ?ks)"
  proof (cases "t = 0")
    case True
    let ?a = "max_from (\<lambda>key. count (s ! child (s ! i) key)) (hd ?ks) (tl ?ks)"
    have "select_action t s i = Some ?a" using assms True by (simp add: select_action_def)
    moreover have "?a \<in> set (hd ?ks # tl ?ks)" by (rule max_from_in)
    ultimately show ?thesis by (rule that)
  next
    case False
    let ?a = "max_from (\<lambda>key. selection_strategy t (s ! child (s ! i) key)) (hd ?ks) (tl ?ks)"
    have "select_action t s i = Some ?a" using assms False by (simp add: select_action_def)
    moreover have "?a \<in> set (hd ?ks # tl ?ks)" by (rule max_from_in)
    ultimately show ?thesis by (rule that)
  qed
  with ks have "a \<in> set ?ks" by simp
  then have "a \<in> fst ` set (children (s ! i))" by (simp add: keys_def)
  then obtain c where c: "map_of (children (s ! i)) a = Some c"
    by (metis map_of_eq_None_iff not_Some_eq)
  then have "(a, c) \<in> set (children (s ! i))" by (rule map_of_SomeD)
  with a(1) c show ?thesis by blast
qed

lemma descend_leaf:
  "children (s ! node) = [] \<Longrightarrow>
   descend w t s depth node state tot terminal = Inr (node, state, tot, depth, terminal)"
  by (cases depth) simp_all

lemma descend_ok:
  "wf_store s \<Longrightarrow> node < length s \<Longrightarrow>
   \<exists>node' state' tot' depth' terminal'.
     descend w t s depth node state tot terminal = Inr (node', state', tot', depth', terminal')
     \<and> node' < length s"
proof (induction depth arbitrary: node state tot terminal)
  case 0
  then show ?case by simp
next
  case (Suc depth)
  show ?case
  proof (cases "children (s ! node) \<noteq> [] \<and> \<not> terminal")
    case False
    with Suc.prems show ?thesis by auto
  next
    case True
    then obtain a c where a: "select_action t s node = Some a"
      "map_of (children (s ! node)) a = Some c" "(a, c) \<in> set (children (s ! node))"
      using select_action_child by blast
    from a(3) Suc.prems have c: "c < length s" by (fastforce simp: wf_store_def)
    obtain reward terminal1 state1 where st: "env_step w state a = (reward, terminal1, state1)"
      by (cases "env_step w state a")
    from Suc.IH [OF Suc.prems(1) c, of state1 "tot + reward" terminal1]
    obtain node' state' tot' depth' terminal' where
      "descend w t s depth c state1 (tot + reward) terminal1
         = Inr (node', state', tot', depth', terminal')" "node' < length s"
      by blast
    with True a st show ?thesis by simp
  qed
qed

lemma evaluate_ok:
  assumes "\<forall>g state. \<exists>a g'. choice w g (fst (policy state)) (snd (policy state)) = Inr (a, g')"
  shows "\<exists>tot' g'. evaluate w policy limit state tot g = Inr (tot', g')"
proof (induction limit arbitrary: state tot g)
  case 0
  show ?case by simp
next
  case (Suc limit)
  obtain actions probabilities where p: "policy state = (actions, probabilities)"
    by (cases "policy state")
  with assms obtain a g1 where c: "choice w g actions probabilities = Inr (a, g1)"
    by (metis fst_conv snd_conv)
  obtain reward terminal state1 where st: "env_step w state a = (reward, terminal, state1)"
    by (cases "env_step w state a")
  show ?case
  proof (cases terminal)
    case True
    with p c st show ?thesis by simp
  next
    case False
    from Suc.IH [of state1 "tot + reward" g1] False p c st show ?thesis by simp
  qed
qed

lemma run_ok:
  assumes wf: "wf_store (nodes m)" and r: "root m < length (nodes m)"
    and pri: "\<forall>state. length (fst (prior_policy m state)) \<le> length (snd (prior_policy m state))"
    and rol: "\<forall>g state. \<exists>a g'.
        choice w g (fst (rollout_policy m state)) (snd (rollout_policy m state)) = Inr (a, g')"
  shows "\<exists>s2 g2. run w state m = Some (Inr (m\<lparr>nodes := s2, np_random := g2\<rparr>))
     \<and> wf_store s2 \<and> root m < length s2
     \<and> (children (nodes m ! root m) \<noteq> [] \<or> fst (prior_policy m state) \<noteq> []
          \<longrightarrow> children (s2 ! root m) \<noteq> [])"
proof -
  let ?s = "nodes m"
  obtain node state' tot depth terminal where
    d: "descend w (temperature m) ?s (max_depth m) (root m) state 0 False
          = Inr (node, state', tot, depth, terminal)" and n: "node < length ?s"
    using descend_ok [OF wf r, of w "temperature m" "max_depth m" state 0 False] by blast
  define cond where "cond \<longleftrightarrow> children (?s ! node) = [] \<and> (\<not> terminal \<or> node = root m)"
  obtain s1 where e: "(if cond then expand (prior_policy m state') node ?s else Inr ?s) = Inr s1"
    using expand_ok [OF pri [rule_format, of state'], of node ?s] by (cases cond) auto
  have "wf_store s1 \<and> length ?s \<le> length s1
    \<and> (\<forall>j < length ?s. children (?s ! j) \<noteq> [] \<longrightarrow> children (s1 ! j) \<noteq> [])"
  proof (cases cond)
    case True
    with e have "expand (prior_policy m state') node ?s = Inr s1" by simp
    with wf n show ?thesis by (rule expand_wf)
  next
    case False
    with e have "s1 = ?s" by simp
    with wf show ?thesis by simp
  qed
  then have wf1: "wf_store s1" and l1: "length ?s \<le> length s1"
    and keep1: "\<forall>j < length ?s. children (?s ! j) \<noteq> [] \<longrightarrow> children (s1 ! j) \<noteq> []"
    by blast+
  let ?v = "if \<not> terminal
             then evaluate w (rollout_policy m) depth state' tot (np_random m)
             else Inr (tot, np_random m)"
  obtain tot2 g2 where v: "?v = Inr (tot2, g2)"
    using evaluate_ok [OF rol, of depth state' tot "np_random m"] by (cases terminal) auto
  from n l1 have n1: "node < length s1" by simp
  from update_branch_wf [OF wf1 n1, of tot2]
  obtain s2 where u: "update_branch tot2 node s1 = Some s2" "length s2 = length s1"
    "\<forall>j < length s1. children (s2 ! j) = children (s1 ! j) \<and> parent (s2 ! j) = parent (s1 ! j)"
    by blast
  from wf1 u(2,3) have wf2: "wf_store s2" by (rule wf_store_same_shape)
  have run: "run w state m = Some (Inr (m\<lparr>nodes := s2, np_random := g2\<rparr>))"
    using d e v u(1) unfolding run_def cond_def by simp
  from r l1 u(2) have r2: "root m < length s2" by simp
  have "children (s2 ! root m) \<noteq> []"
    if "children (?s ! root m) \<noteq> [] \<or> fst (prior_policy m state) \<noteq> []"
  proof (cases "children (?s ! root m) \<noteq> []")
    case True
    with keep1 r have "children (s1 ! root m) \<noteq> []" by simp
    with u(3) r l1 show ?thesis by simp
  next
    case False
    with that have ne: "fst (prior_policy m state) \<noteq> []" by simp
    from False have "descend w (temperature m) ?s (max_depth m) (root m) state 0 False
          = Inr (root m, state, 0, max_depth m, False)"
      by (simp add: descend_leaf)
    with d have eq: "node = root m" "state' = state" "terminal = False" by simp_all
    with e False have "expand (prior_policy m state) (root m) ?s = Inr s1"
      by (simp add: cond_def)
    from expand_nonempty [OF r this ne] have "children (s1 ! root m) \<noteq> []" .
    with u(3) r l1 show ?thesis by simp
  qed
  with run wf2 r2 show ?thesis by blast
qed

lemma iterate_ok:
  assumes pri: "\<forall>state. length (fst (prior_policy m state)) \<le> length (snd (prior_policy m state))"
    and rol: "\<forall>g state. \<exists>a g'.
        choice w g (fst (rollout_policy m state)) (snd (rollout_policy m state)) = Inr (a, g')"
  shows "wf_store (nodes m) \<Longrightarrow> root m < length (nodes m) \<Longrightarrow>
     \<exists>s2 g2. iterate w state n m = Some (Inr (m\<lparr>nodes := s2, np_random := g2\<rparr>))
       \<and> wf_store s2 \<and> root m < length s2
       \<and> (children (nodes m ! root m) \<noteq> []
            \<or> 0 < n \<and> fst (prior_policy m (snapshot w state)) \<noteq> []
           \<longrightarrow> children (s2 ! root m) \<noteq> [])
       \<and> (n = 0 \<longrightarrow> s2 = nodes m)"
  using pri rol
proof (induction n arbitrary: m)
  case 0
  have "iterate w state 0 m = Some (Inr (m\<lparr>nodes := nodes m, np_random := np_random m\<rparr>))"
    by simp
  with "0.prems"(1,2) show ?case by blast
next
  case (Suc n)
  from run_ok [OF Suc.prems(1,2,3,4), of "snapshot w state"]
  obtain s1 g1 where run: "run w (snapshot w state) m = Some (Inr (m\<lparr>nodes := s1, np_random := g1\<rparr>))"
    and wf1: "wf_store s1" and r1: "root m < length s1"
    and c1: "children (nodes m ! root m) \<noteq> [] \<or> fst (prior_policy m (snapshot w state)) \<noteq> []
          \<longrightarrow> children (s1 ! root m) \<noteq> []"
    by blast
  let ?m1 = "m\<lparr>nodes := s1, np_random := g1\<rparr>"
  have wf1': "wf_store (nodes ?m1)" and r1': "root ?m1 < length (nodes ?m1)"
    using wf1 r1 by simp_all
  have pri1: "\<forall>state. length (fst (prior_policy ?m1 state)) \<le> length (snd (prior_policy ?m1 state))"
    using Suc.prems(3) by simp
  have rol1: "\<forall>g state. \<exists>a g'.
        choice w g (fst (rollout_policy ?m1 state)) (snd (rollout_policy ?m1 state)) = Inr (a, g')"
    using Suc.prems(4) by simp
  from Suc.IH [OF wf1' r1' pri1 rol1]
  obtain s2 g2 where it: "iterate w state n ?m1 = Some (Inr (?m1\<lparr>nodes := s2, np_random := g2\<rparr>))"
    and wf2: "wf_store s2" and r2: "root ?m1 < length s2"
    and c2: "children (nodes ?m1 ! root ?m1) \<noteq> [] \<longrightarrow> children (s2 ! root ?m1) \<noteq> []"
    by blast
  have "iterate w state (Suc n) m = Some (Inr (m\<lparr>nodes := s2, np_random := g2\<rparr>))"
    using run it by (simp add: bind_res_def)
  moreover have "children (nodes m ! root m) \<noteq> []
            \<or> 0 < Suc n \<and> fst (prior_policy m (snapshot w state)) \<noteq> []
           \<longrightarrow> children (s2 ! root m) \<noteq> []"
    using c1 c2 by auto
  ultimately show ?case using wf2 r2 by auto
qed

lemma get_plan_from_ok:
  "wf_store s \<Longrightarrow> node < length s \<Longrightarrow>
   \<exists>as. get_plan_from s node acc = Some (Inr (acc @ as)) \<and> greedy_walk s node as"
proof (induction "length s - node" arbitrary: node acc rule: less_induct)
  case less
  show ?case
  proof (cases "children (s ! node) = []")
    case True
    then have "get_plan_from s node acc = Some (Inr (acc @ []))"
      by (subst get_plan_from.simps) simp
    moreover from True have "greedy_walk s node []" by (rule greedy_walk.leaf)
    ultimately show ?thesis by blast
  next
    case False
    then obtain a c where a: "select_action 0 s node = Some a"
      "map_of (children (s ! node)) a = Some c" "(a, c) \<in> set (children (s ! node))"
      using select_action_child by blast
    from a(3) less.prems have c: "node < c" "c < length s" by (fastforce simp: wf_store_def)+
    then have "length s - c < length s - node" by simp
    from less.hyps [OF this less.prems(1) c(2), of "acc @ [a]"]
    obtain as where as: "get_plan_from s c (acc @ [a]) = Some (Inr ((acc @ [a]) @ as))"
      "greedy_walk s c as" by blast
    have "get_plan_from s node acc = Some (Inr (acc @ a # as))"
      using False a(1,2) as(1) by (subst get_plan_from.simps) simp
    moreover have "greedy_walk s node (a # as)"
      using False a(1,2) as(2) by (rule greedy_walk.down)
    ultimately show ?thesis by blast
  qed
qed

lemma greedy_walk_empty: "greedy_walk s node as \<Longrightarrow> as = [] \<longleftrightarrow> children (s ! node) = []"
  by (induction rule: greedy_walk.induct) simp_all

lemma wf_store_reset: "wf_store s \<Longrightarrow> wf_store (s @ [Node None 1])"
  unfolding wf_store_def
proof (intro allI impI)
  fix i assume wf: "\<forall>i<length s.
            (\<forall>(a, c)\<in>set (children (s ! i)). i < c \<and> c < length s) \<and>
            (\<forall>p. parent (s ! i) = Some p \<longrightarrow> p < i)"
    and i: "i < length (s @ [Node None 1])"
  show "(\<forall>(a, c)\<in>set (children ((s @ [Node None 1]) ! i)). i < c \<and> c < length (s @ [Node None 1])) \<and>
         (\<forall>p. parent ((s @ [Node None 1]) ! i) = Some p \<longrightarrow> p < i)"
  proof (cases "i < length s")
    case True
    with wf have "(\<forall>(a, c)\<in>set (children (s ! i)). i < c \<and> c < length s) \<and>
            (\<forall>p. parent (s ! i) = Some p \<longrightarrow> p < i)" by blast
    with True show ?thesis by (fastforce simp: nth_append)
  next
    case False
    with i have "i = length s" by simp
    then show ?thesis by (simp add: Node_def)
  qed
qed

lemma wf_store_detach:
  assumes "wf_store s" and "c < length s"
  shows "wf_store (s[c := (s ! c)\<lparr>parent := None\<rparr>])"
  unfolding wf_store_def
proof (intro allI impI)
  fix i assume "i < length (s[c := (s ! c)\<lparr>parent := None\<rparr>])"
  then have i: "i < length s" by simp
  with assms(1) have *: "\<forall>(a, c') \<in> set (children (s ! i)). i < c' \<and> c' < length s"
    "\<forall>p. parent (s ! i) = Some p \<longrightarrow> p < i"
    by (simp_all add: wf_store_def)
  show "(\<forall>(a, c') \<in> set (children (s[c := (s ! c)\<lparr>parent := None\<rparr>] ! i)).
            i < c' \<and> c' < length (s[c := (s ! c)\<lparr>parent := None\<rparr>]))
        \<and> (\<forall>p. parent (s[c := (s ! c)\<lparr>parent := None\<rparr>] ! i) = Some p \<longrightarrow> p < i)"
  proof (cases "i = c")
    case True
    with * assms(2) show ?thesis by simp
  next
    case False
    with * assms(2) show ?thesis by simp
  qed
qed

lemma MCTS_step_wf:
  assumes "wf_store (nodes m)" and "root m < length (nodes m)"
  shows "wf_store (nodes (MCTS_step a m)) \<and> root (MCTS_step a m) < length (nodes (MCTS_step a m))
    \<and> prior_policy (MCTS_step a m) = prior_policy m
    \<and> rollout_policy (MCTS_step a m) = rollout_policy m
    \<and> iterations (MCTS_step a m) = iterations m"
proof (cases "case a of None \<Rightarrow> None | Some a' \<Rightarrow> map_of (children (nodes m ! root m)) a'")
  case None
  then have "MCTS_step a m = step_by_reset m"
    by (simp add: MCTS_step_def step_by_subtree_def)
  with assms(1) show ?thesis by (simp add: step_by_reset_def wf_store_reset)
next
  case (Some c)
  then have eq: "MCTS_step a m = m\<lparr>root := c, nodes := (nodes m)[c := (nodes m ! c)\<lparr>parent := None\<rparr>]\<rparr>"
    by (simp add: MCTS_step_def step_by_subtree_def)
  from Some obtain a' where "map_of (children (nodes m ! root m)) a' = Some c"
    by (cases a) simp_all
  then have "(a', c) \<in> set (children (nodes m ! root m))" by (rule map_of_SomeD)
  with assms have c: "c < length (nodes m)" by (fastforce simp: wf_store_def)
  have "wf_store ((nodes m)[c := (nodes m ! c)\<lparr>parent := None\<rparr>])"
    using assms(1) c by (rule wf_store_detach)
  with eq c show ?thesis by simp
qed

lemma MCTS_plan_ok:
  assumes wf: "wf_store (nodes m)" and r: "root m < length (nodes m)"
    and pri: "\<forall>st. length (fst (prior_policy m st)) \<le> length (snd (prior_policy m st))"
    and rol: "\<forall>g st. \<exists>a g'.
        choice w g (fst (rollout_policy m st)) (snd (rollout_policy m st)) = Inr (a, g')"
  shows "\<exists>as m'. MCTS_plan w st m = Some (Inr (as, m'))
     \<and> greedy_walk (nodes m') (root m') as
     \<and> (as = [] \<longleftrightarrow> children (nodes m' ! root m') = [])
     \<and> (children (nodes m ! root m) \<noteq> []
            \<or> 0 < iterations m \<and> fst (prior_policy m (snapshot w st)) \<noteq> []
           \<longrightarrow> children (nodes m' ! root m') \<noteq> [])
     \<and> (iterations m = 0 \<longrightarrow> m' = m)"
proof -
  from iterate_ok [OF pri rol wf r, of st "iterations m"]
  obtain s2 g2 where it: "iterate w st (iterations m) m = Some (Inr (m\<lparr>nodes := s2, np_random := g2\<rparr>))"
    and wf2: "wf_store s2" and r2: "root m < length s2"
    and c2: "children (nodes m ! root m) \<noteq> []
            \<or> 0 < iterations m \<and> fst (prior_policy m (snapshot w st)) \<noteq> []
           \<longrightarrow> children (s2 ! root m) \<noteq> []"
    and z: "iterations m = 0 \<longrightarrow> s2 = nodes m"
    by (elim exE conjE) (rule that)
  let ?m' = "m\<lparr>nodes := s2, np_random := g2\<rparr>"
  from get_plan_from_ok [OF wf2 r2, of "[]"]
  obtain as where gp: "get_plan_from s2 (root m) [] = Some (Inr as)" and gw: "greedy_walk s2 (root m) as"
    by auto
  have 1: "MCTS_plan w st m = Some (Inr (as, ?m'))"
    using it gp by (simp add: MCTS_plan_def bind_res_def get_plan_def)
  have 2: "greedy_walk (nodes ?m') (root ?m') as" using gw by simp
  have 3: "as = [] \<longleftrightarrow> children (nodes ?m' ! root ?m') = []"
    using greedy_walk_empty [OF gw] by simp
  have 4: "children (nodes m ! root m) \<noteq> []
            \<or> 0 < iterations m \<and> fst (prior_policy m (snapshot w st)) \<noteq> []
           \<longrightarrow> children (nodes ?m' ! root ?m') \<noteq> []"
    using c2 by simp
  have 5: "iterations m = 0 \<longrightarrow> ?m' = m"
  proof
    assume "iterations m = 0"
    with it have "Some (Inr ?m') = Some (Inr m)" by simp
    then show "?m' = m" by simp
  qed
  show ?thesis
    by (rule exI [where x = as], rule exI [where x = "?m'"]) (intro conjI 1 2 3 4 5)
qed

text \<open>
  C8, amended. Take an agent with a well-formed tree, a prior policy that gives a probability
  to each of its actions, a rollout policy whose output the sampling accepts, and a model
  substitution that does not raise. For every iteration count, zero included, the plan of the
  engine returns, after stepping the tree, the walk from the root that takes the
  temperature-0 action until a node without children. With at least one iteration and a
  prior policy that offers an action in the state of the agent, the root has children after
  planning, the plan is not empty, and \<open>plan\<close> and \<open>act\<close> of the agent return: the plan,
  its first action, and the agent with that action as previous action. With zero iterations
  and a root without children nothing is expanded: the plan of the engine is empty and
  \<open>plan\<close> and \<open>act\<close> of the agent raise \<open>IndexError\<close>.
\<close>

theorem plan_anytime_from_first_iteration:
  assumes wf: "wf_store (nodes (mcts ag))" and r: "root (mcts ag) < length (nodes (mcts ag))"
    and pri: "\<forall>st. length (fst (prior_policy (mcts ag) st)) \<le> length (snd (prior_policy (mcts ag) st))"
    and rol: "\<forall>g st. \<exists>a g'. choice w g (fst (rollout_policy (mcts ag) st))
                                   (snd (rollout_policy (mcts ag) st)) = Inr (a, g')"
    and cam: "\<forall>model. assume_vehicle_type ag = Some model \<longrightarrow>
                (\<exists>st'. change_agent_model w state model = Inr st')"
  shows "(\<exists>as m'. MCTS_plan w (env ag) (MCTS_step (previous_action ag) (mcts ag)) = Some (Inr (as, m'))
           \<and> greedy_walk (nodes m') (root m') as)
    \<and> (0 < iterations (mcts ag) \<and> fst (prior_policy (mcts ag) (snapshot w (env ag))) \<noteq> [] \<longrightarrow>
         (\<exists>a as ag'. MCTSAgent_plan w state ag = Some (Inr (a # as, ag'))
            \<and> MCTSAgent_act w state ag = Some (Inr (a, ag'))
            \<and> previous_action ag' = Some a
            \<and> children (nodes (mcts ag') ! root (mcts ag')) \<noteq> []
            \<and> greedy_walk (nodes (mcts ag')) (root (mcts ag')) (a # as)))
    \<and> (iterations (mcts ag) = 0
         \<and> children (nodes (MCTS_step (previous_action ag) (mcts ag))
                      ! root (MCTS_step (previous_action ag) (mcts ag))) = [] \<longrightarrow>
         MCTS_plan w (env ag) (MCTS_step (previous_action ag) (mcts ag))
           = Some (Inr ([], MCTS_step (previous_action ag) (mcts ag)))
         \<and> MCTSAgent_plan w state ag = Some (Inl IndexError)
         \<and> MCTSAgent_act w state ag = Some (Inl IndexError))"
proof -
  let ?m1 = "MCTS_step (previous_action ag) (mcts ag)"
  from MCTS_step_wf [OF wf r, of "previous_action ag"]
  have wf1: "wf_store (nodes ?m1)" and r1: "root ?m1 < length (nodes ?m1)"
    and pp: "prior_policy ?m1 = prior_policy (mcts ag)"
    and rp: "rollout_policy ?m1 = rollout_policy (mcts ag)"
    and it: "iterations ?m1 = iterations (mcts ag)"
    by blast+
  have pri1: "\<forall>st. length (fst (prior_policy ?m1 st)) \<le> length (snd (prior_policy ?m1 st))"
    using pri pp by simp
  have rol1: "\<forall>g st. \<exists>a g'. choice w g (fst (rollout_policy ?m1 st))
                                   (snd (rollout_policy ?m1 st)) = Inr (a, g')"
    using rol rp by simp
  from MCTS_plan_ok [OF wf1 r1 pri1 rol1, of "env ag"]
  obtain as m' where pl: "MCTS_plan w (env ag) ?m1 = Some (Inr (as, m'))"
    and gw: "greedy_walk (nodes m') (root m') as"
    and em: "as = [] \<longleftrightarrow> children (nodes m' ! root m') = []"
    and ch: "children (nodes ?m1 ! root ?m1) \<noteq> []
            \<or> 0 < iterations ?m1 \<and> fst (prior_policy ?m1 (snapshot w (env ag))) \<noteq> []
           \<longrightarrow> children (nodes m' ! root m') \<noteq> []"
    and z: "iterations ?m1 = 0 \<longrightarrow> m' = ?m1"
    by (elim exE conjE) (rule that)
  obtain state' where st: "(case assume_vehicle_type ag of None \<Rightarrow> Inr state
            | Some model \<Rightarrow> change_agent_model w state model) = Inr state'"
    using cam by (cases "assume_vehicle_type ag") auto
  have agent: "MCTSAgent_plan w state ag =
      (case as of [] \<Rightarrow> Some (Inl IndexError)
       | a # _ \<Rightarrow> Some (Inr (as, ag\<lparr>mcts := m', previous_action := Some a\<rparr>)))"
    using st pl by (simp add: MCTSAgent_plan_def Let_def bind_res_def)
  have 1: "\<exists>as m'. MCTS_plan w (env ag) ?m1 = Some (Inr (as, m'))
           \<and> greedy_walk (nodes m') (root m') as"
    using pl gw by blast
  have 2: "\<exists>a as ag'. MCTSAgent_plan w state ag = Some (Inr (a # as, ag'))
            \<and> MCTSAgent_act w state ag = Some (Inr (a, ag'))
            \<and> previous_action ag' = Some a
            \<and> children (nodes (mcts ag') ! root (mcts ag')) \<noteq> []
            \<and> greedy_walk (nodes (mcts ag')) (root (mcts ag')) (a # as)"
    if "0 < iterations (mcts ag) \<and> fst (prior_policy (mcts ag) (snapshot w (env ag))) \<noteq> []"
  proof -
    from that ch pp it have ne: "children (nodes m' ! root m') \<noteq> []" by simp
    with em obtain a as' where as: "as = a # as'" by (cases as) auto
    let ?ag' = "ag\<lparr>mcts := m', previous_action := Some a\<rparr>"
    from agent as have p: "MCTSAgent_plan w state ag = Some (Inr (a # as', ?ag'))" by simp
    then have q: "MCTSAgent_act w state ag = Some (Inr (a, ?ag'))"
      by (simp add: MCTSAgent_act_def bind_res_def)
    have pa: "previous_action ?ag' = Some a" by simp
    have c: "children (nodes (mcts ?ag') ! root (mcts ?ag')) \<noteq> []" using ne by simp
    have g: "greedy_walk (nodes (mcts ?ag')) (root (mcts ?ag')) (a # as')"
      using gw as by simp
    show ?thesis
      by (rule exI [where x = a], rule exI [where x = as'], rule exI [where x = "?ag'"])
        (intro conjI p q pa c g)
  qed
  have 3: "MCTS_plan w (env ag) ?m1 = Some (Inr ([], ?m1))
         \<and> MCTSAgent_plan w state ag = Some (Inl IndexError)
         \<and> MCTSAgent_act w state ag = Some (Inl IndexError)"
    if "iterations (mcts ag) = 0 \<and> children (nodes ?m1 ! root ?m1) = []"
  proof -
    from that z it have m': "m' = ?m1" by simp
    with that em have "as = []" by simp
    with pl m' agent show ?thesis by (simp add: MCTSAgent_act_def bind_res_def)
  qed
  from 1 2 3 show ?thesis by blast
qed

text \<open>
  C8, as stated, fails for zero iterations: \<open>plan\<close> and \<open>act\<close> of a new agent raise
  \<open>IndexError\<close>.
\<close>

theorem agent_plan_zero_iterations_counterexample:
  "iterations (mcts (ex_agent 0 0)) = 0
   \<and> MCTSAgent_plan ex_world 0 (ex_agent 0 0) = Some (Inl IndexError)
   \<and> MCTSAgent_act ex_world 0 (ex_agent 0 0) = Some (Inl IndexError)"
  by (simp add: MCTSAgent_plan_def MCTSAgent_act_def ex_agent_def MCTS_step_def
      step_by_subtree_def step_by_reset_def MCTS_plan_def bind_res_def get_plan_def
      get_plan_from.simps Node_def)

text \<open>
  A new agent with four iterations in state 1.
\<close>

theorem plan_anytime_from_first_iteration_witness:
  "wf_store (nodes (mcts (ex_agent 4 1)))
   \<and> 0 < iterations (mcts (ex_agent 4 1))
   \<and> fst (prior_policy (mcts (ex_agent 4 1)) (snapshot ex_world (env (ex_agent 4 1)))) \<noteq> []
   \<and> (\<exists>a as ag'. MCTSAgent_plan ex_world 0 (ex_agent 4 1) = Some (Inr (a # as, ag'))
         \<and> MCTSAgent_act ex_world 0 (ex_agent 4 1) = Some (Inr (a, ag'))
         \<and> children (nodes (mcts ag') ! root (mcts ag')) \<noteq> [])
   \<and> map_option (map_sum id fst) (MCTSAgent_plan ex_world 0 (ex_agent 4 1)) = Some (Inr [1, 0, 0])"
proof -
  have wf: "wf_store (nodes (mcts (ex_agent 4 1)))"
    by (simp add: ex_agent_def wf_store_def Node_def)
  have r: "root (mcts (ex_agent 4 1)) < length (nodes (mcts (ex_agent 4 1)))"
    by (simp add: ex_agent_def)
  have pri: "\<forall>st. length (fst (prior_policy (mcts (ex_agent 4 1)) st))
                 \<le> length (snd (prior_policy (mcts (ex_agent 4 1)) st))"
    by (simp add: ex_agent_def first_policy_def)
  have rol: "\<forall>g st. \<exists>a g'. choice ex_world g (fst (rollout_policy (mcts (ex_agent 4 1)) st))
                       (snd (rollout_policy (mcts (ex_agent 4 1)) st)) = Inr (a, g')"
    by (simp add: ex_agent_def first_policy_def ex_world_def)
  have cam: "\<forall>model. assume_vehicle_type (ex_agent 4 1) = Some model \<longrightarrow>
                (\<exists>st'. change_agent_model ex_world 0 model = Inr st')"
    by (simp add: ex_agent_def)
  have n: "0 < iterations (mcts (ex_agent 4 1))
      \<and> fst (prior_policy (mcts (ex_agent 4 1)) (snapshot ex_world (env (ex_agent 4 1)))) \<noteq> []"
    by (simp add: ex_agent_def first_policy_def)
  from plan_anytime_from_first_iteration [OF wf r pri rol cam] n
  have "\<exists>a as ag'. MCTSAgent_plan ex_world 0 (ex_agent 4 1) = Some (Inr (a # as, ag'))
         \<and> MCTSAgent_act ex_world 0 (ex_agent 4 1) = Some (Inr (a, ag'))
         \<and> children (nodes (mcts ag') ! root (mcts ag')) \<noteq> []"
    by blast
  moreover have "map_option (map_sum id fst) (MCTSAgent_plan ex_world 0 (ex_agent 4 1))
      = Some (Inr [1, 0, 0])"
    by code_simp
  ultimately show ?thesis using wf n by blast
qed

section \<open>C10: the actions of a joint environment\<close>

lemma fold_union: "fold (\<lambda>xs acc. acc \<union> set xs) xss A = A \<union> (\<Union>xs \<in> set xss. set xs)"
  by (induction xss arbitrary: A) auto

text \<open>
  C10. \<open>JointEnv.get_available_actions\<close> returns the union of the available actions of the
  environments, where an environment without availability query counts with its whole action
  space \<open>0, ..., n - 1\<close>: an action is returned as soon as one environment has it.
\<close>

theorem joint_available_actions_union:
  "JointEnv_get_available_actions joint_state = (\<Union>s \<in> set joint_state. set (available_actions s))
   \<and> (\<forall>s \<in> set joint_state.
         (case get_available_actions s of
            Some actions \<Rightarrow> set actions
          | None \<Rightarrow> {0..<action_space_n s}) \<subseteq> JointEnv_get_available_actions joint_state)
   \<and> (\<forall>a. (\<exists>s \<in> set joint_state. a \<in> set (available_actions s)) \<longrightarrow>
         a \<in> JointEnv_get_available_actions joint_state)"
proof -
  have u: "JointEnv_get_available_actions joint_state
      = (\<Union>s \<in> set joint_state. set (available_actions s))"
    by (simp add: JointEnv_get_available_actions_def fold_union)
  have "\<forall>s \<in> set joint_state.
         (case get_available_actions s of
            Some actions \<Rightarrow> set actions
          | None \<Rightarrow> {0..<action_space_n s}) = set (available_actions s)"
    by (simp add: available_actions_def split: option.splits)
  with u show ?thesis by auto
qed

text \<open>
  Action 0 is returned although the second environment does not have it; the intersection
  would be the single action 1.
\<close>

theorem joint_available_actions_union_witness:
  "JointEnv_get_available_actions ex_envs = {0, 1, 2, 3}
   \<and> 0 \<in> JointEnv_get_available_actions ex_envs
   \<and> 0 \<notin> set (available_actions (ex_envs ! 1))
   \<and> (\<Inter>s \<in> set ex_envs. set (available_actions s)) = {1}"
proof -
  have 1: "set (available_actions (ex_envs ! 0)) = {0, 1}"
    "set (available_actions (ex_envs ! 1)) = {1, 2}"
    "set (available_actions (ex_envs ! 2)) = {0, 1, 2, 3}"
    by (auto simp: ex_envs_def available_actions_def)
  have 2: "set ex_envs = {ex_envs ! 0, ex_envs ! 1, ex_envs ! 2}"
    by (simp add: ex_envs_def)
  from joint_available_actions_union [of ex_envs]
  have "JointEnv_get_available_actions ex_envs = (\<Union>s \<in> set ex_envs. set (available_actions s))"
    by blast
  with 1 2 have "JointEnv_get_available_actions ex_envs = {0, 1, 2, 3}" by auto
  moreover have "(\<Inter>s \<in> set ex_envs. set (available_actions s)) = {1}"
    using 1 2 by auto
  ultimately show ?thesis using 1 by simp
qed

section \<open>C7: the maximin choice of the robust agent\<close>

lemma py_min_Infinity: "py_min Infinity x = Finite x"
  by (simp add: py_min_def less_bound_def)

lemma py_min_Finite: "py_min (Finite v) x = Finite (min v x)"
  by (auto simp: py_min_def less_bound_def min_def)

lemma Min_insert_min:
  "finite A \<Longrightarrow> Min (insert (min x y) A) = Min (insert x (insert y A))"
  by (cases "A = {}") (simp_all add: min.assoc)

lemma fold_py_min_Finite:
  "fold (\<lambda>ag v. py_min v (f ag)) ags (Finite x) = Finite (Min (insert x (f ` set ags)))"
proof (induction ags arbitrary: x)
  case Nil
  show ?case by simp
next
  case (Cons a ags)
  have "fold (\<lambda>ag v. py_min v (f ag)) (a # ags) (Finite x)
      = fold (\<lambda>ag v. py_min v (f ag)) ags (Finite (min x (f a)))"
    by (simp add: py_min_Finite)
  also have "\<dots> = Finite (Min (insert (min x (f a)) (f ` set ags)))" by (rule Cons.IH)
  also have "\<dots> = Finite (Min (insert x (insert (f a) (f ` set ags))))"
    by (simp only: Min_insert_min [OF finite_imageI [OF finite_set]])
  finally show ?case by simp
qed

lemma fold_py_min_Infinity:
  "fold (\<lambda>ag v. py_min v (f ag)) ags Infinity
     = (if ags = [] then Infinity else Finite (Min (f ` set ags)))"
proof (cases ags)
  case Nil
  then show ?thesis by simp
next
  case (Cons a ags')
  then show ?thesis by (simp add: py_min_Infinity fold_py_min_Finite)
qed

lemma fold_min_over_agent:
  "fold min_over_agent planned mav =
     map (\<lambda>(k, v). (k, fold (\<lambda>ag v. py_min v (root_child_value ag k)) planned v))
       (filter (\<lambda>(k, v). \<forall>ag \<in> set planned. map_of (children (root_node ag)) k \<noteq> None) mav)"
proof (induction planned arbitrary: mav)
  case Nil
  show ?case by simp
next
  case (Cons a planned)
  have "fold min_over_agent (a # planned) mav = fold min_over_agent planned (min_over_agent a mav)"
    by simp
  also have "\<dots> = map (\<lambda>(k, v). (k, fold (\<lambda>ag v. py_min v (root_child_value ag k)) planned v))
       (filter (\<lambda>(k, v). \<forall>ag \<in> set planned. map_of (children (root_node ag)) k \<noteq> None)
          (min_over_agent a mav))"
    by (rule Cons.IH)
  also have "\<dots> = map (\<lambda>(k, v). (k, fold (\<lambda>ag v. py_min v (root_child_value ag k)) (a # planned) v))
       (filter (\<lambda>(k, v). \<forall>ag \<in> set (a # planned). map_of (children (root_node ag)) k \<noteq> None) mav)"
    by (induction mav) (auto simp: min_over_agent_def)
  finally show ?case .
qed

lemma key_present: "k \<in> set (keys n) \<longleftrightarrow> map_of (children n) k \<noteq> None"
  by (simp add: keys_def map_of_eq_None_iff)

lemma map_of_graph: "k \<in> set ks \<Longrightarrow> map_of (map (\<lambda>k. (k, g k)) ks) k = Some (g k)"
  by (induction ks) auto

lemma map_filter_graph:
  "map (\<lambda>(k, v). (k, h k v)) (filter (\<lambda>(k, v). P k) (map (\<lambda>k. (k, c)) ks))
     = map (\<lambda>k. (k, h k c)) (filter P ks)"
  by (induction ks) auto

lemma MCTSAgent_plan_ok:
  assumes "agent_ready w state ag"
  shows "\<exists>a as ag'. MCTSAgent_plan w state ag = Some (Inr (a # as, ag'))
     \<and> children (root_node ag') \<noteq> []"
proof -
  let ?m1 = "MCTS_step (previous_action ag) (mcts ag)"
  from assms have wf: "wf_store (nodes (mcts ag))" and r: "root (mcts ag) < length (nodes (mcts ag))"
    and pri: "\<forall>st. length (fst (prior_policy (mcts ag) st)) \<le> length (snd (prior_policy (mcts ag) st))"
    and rol: "\<forall>g st. \<exists>a g'. choice w g (fst (rollout_policy (mcts ag) st))
                                   (snd (rollout_policy (mcts ag) st)) = Inr (a, g')"
    and cam: "\<forall>model. assume_vehicle_type ag = Some model \<longrightarrow>
                (\<exists>st'. change_agent_model w state model = Inr st')"
    and pos: "0 < iterations (mcts ag)"
    and off: "fst (prior_policy (mcts ag) (snapshot w (env ag))) \<noteq> []"
    by (simp_all add: agent_ready_def)
  from MCTS_step_wf [OF wf r, of "previous_action ag"]
  have wf1: "wf_store (nodes ?m1)" and r1: "root ?m1 < length (nodes ?m1)"
    and pp: "prior_policy ?m1 = prior_policy (mcts ag)"
    and rp: "rollout_policy ?m1 = rollout_policy (mcts ag)"
    and it: "iterations ?m1 = iterations (mcts ag)"
    by blast+
  have pri1: "\<forall>st. length (fst (prior_policy ?m1 st)) \<le> length (snd (prior_policy ?m1 st))"
    using pri pp by simp
  have rol1: "\<forall>g st. \<exists>a g'. choice w g (fst (rollout_policy ?m1 st))
                                   (snd (rollout_policy ?m1 st)) = Inr (a, g')"
    using rol rp by simp
  from MCTS_plan_ok [OF wf1 r1 pri1 rol1, of "env ag"]
  obtain as m' where pl: "MCTS_plan w (env ag) ?m1 = Some (Inr (as, m'))"
    and em: "as = [] \<longleftrightarrow> children (nodes m' ! root m') = []"
    and ch: "children (nodes ?m1 ! root ?m1) \<noteq> []
            \<or> 0 < iterations ?m1 \<and> fst (prior_policy ?m1 (snapshot w (env ag))) \<noteq> []
           \<longrightarrow> children (nodes m' ! root m') \<noteq> []"
    by (elim exE conjE) (rule that)
  from ch pp it pos off have ne: "children (nodes m' ! root m') \<noteq> []" by simp
  with em obtain a as' where as: "as = a # as'" by (cases as) auto
  obtain state' where st: "(case assume_vehicle_type ag of None \<Rightarrow> Inr state
            | Some model \<Rightarrow> change_agent_model w state model) = Inr state'"
    using cam by (cases "assume_vehicle_type ag") auto
  let ?ag' = "ag\<lparr>mcts := m', previous_action := Some a\<rparr>"
  have p: "MCTSAgent_plan w state ag = Some (Inr (a # as', ?ag'))"
    using st pl as by (simp add: MCTSAgent_plan_def Let_def bind_res_def)
  have c: "children (root_node ?ag') \<noteq> []" using ne by (simp add: root_node_def)
  show ?thesis
    by (rule exI [where x = a], rule exI [where x = as'], rule exI [where x = "?ag'"])
      (intro conjI p c)
qed

lemma plan_all_ok:
  "\<forall>ag \<in> set agents. agent_ready w state ag \<Longrightarrow>
   \<exists>planned. plan_all w state agents = Some (Inr planned) \<and> length planned = length agents
     \<and> (\<forall>ag \<in> set planned. children (root_node ag) \<noteq> [])"
proof (induction agents)
  case Nil
  show ?case by simp
next
  case (Cons ag agents)
  from Cons.prems have "agent_ready w state ag" by simp
  from MCTSAgent_plan_ok [OF this]
  obtain a as ag' where p: "MCTSAgent_plan w state ag = Some (Inr (a # as, ag'))"
    and c: "children (root_node ag') \<noteq> []"
    by (elim exE conjE) (rule that)
  from Cons.prems have "\<forall>ag \<in> set agents. agent_ready w state ag" by simp
  from Cons.IH [OF this]
  obtain planned where q: "plan_all w state agents = Some (Inr planned)"
    and l: "length planned = length agents"
    and cs: "\<forall>ag \<in> set planned. children (root_node ag) \<noteq> []"
    by (elim exE conjE) (rule that)
  have 1: "plan_all w state (ag # agents) = Some (Inr (ag' # planned))"
    using p q by (simp add: bind_res_def)
  have 2: "length (ag' # planned) = length (ag # agents)" using l by simp
  have 3: "\<forall>ag \<in> set (ag' # planned). children (root_node ag) \<noteq> []" using c cs by simp
  show ?case
    by (rule exI [where x = "ag' # planned"]) (intro conjI 1 2 3)
qed

lemma robust_plan_after:
  assumes pl: "plan_all w state agents = Some (Inr planned)"
  shows "fold min_over_agent planned (map (\<lambda>k. (k, Infinity)) (ACTIONS w state))
       = map (\<lambda>k. (k, min_value_across planned k))
           (filter (\<lambda>k. \<forall>ag \<in> set planned. k \<in> set (keys (root_node ag))) (ACTIONS w state))
   \<and> ((\<exists>k \<in> set (ACTIONS w state). \<forall>ag \<in> set planned. k \<in> set (keys (root_node ag))) \<longrightarrow>
        (\<exists>a. RobustMCTSAgent_plan w state agents
            = Some (Inr ([a], map (\<lambda>ag. ag\<lparr>previous_action := Some a\<rparr>) planned))
         \<and> a \<in> set (ACTIONS w state)
         \<and> (\<forall>ag \<in> set planned. a \<in> set (keys (root_node ag)))
         \<and> (\<forall>k \<in> set (ACTIONS w state). (\<forall>ag \<in> set planned. k \<in> set (keys (root_node ag))) \<longrightarrow>
               min_value_across planned k \<le> min_value_across planned a)
         \<and> (\<forall>ag' \<in> set (map (\<lambda>ag. ag\<lparr>previous_action := Some a\<rparr>) planned).
               previous_action ag' = Some a)))
   \<and> (\<not> (\<exists>k \<in> set (ACTIONS w state). \<forall>ag \<in> set planned. k \<in> set (keys (root_node ag))) \<longrightarrow>
        RobustMCTSAgent_plan w state agents = Some (Inl ValueError))"
proof -
  let ?all = "\<lambda>k. \<forall>ag \<in> set planned. k \<in> set (keys (root_node ag))"
  let ?cands = "filter ?all (ACTIONS w state)"
  let ?g = "min_value_across planned"
  let ?mav = "fold min_over_agent planned (map (\<lambda>k. (k, Infinity)) (ACTIONS w state))"
  have "?mav = map (\<lambda>k. (k, fold (\<lambda>ag v. py_min v (root_child_value ag k)) planned Infinity))
      (filter (\<lambda>k. \<forall>ag \<in> set planned. map_of (children (root_node ag)) k \<noteq> None)
         (ACTIONS w state))"
    unfolding fold_min_over_agent by (rule map_filter_graph)
  then have mav: "?mav = map (\<lambda>k. (k, ?g k)) ?cands"
    by (simp add: key_present min_value_across_def fold_py_min_Infinity)
  then have ks: "map fst ?mav = ?cands" by (simp add: o_def)
  let ?key = "\<lambda>key. the (map_of ?mav key)"
  have some: "\<exists>a. RobustMCTSAgent_plan w state agents
            = Some (Inr ([a], map (\<lambda>ag. ag\<lparr>previous_action := Some a\<rparr>) planned))
         \<and> a \<in> set (ACTIONS w state)
         \<and> (\<forall>ag \<in> set planned. a \<in> set (keys (root_node ag)))
         \<and> (\<forall>k \<in> set (ACTIONS w state). ?all k \<longrightarrow> ?g k \<le> ?g a)
         \<and> (\<forall>ag' \<in> set (map (\<lambda>ag. ag\<lparr>previous_action := Some a\<rparr>) planned).
               previous_action ag' = Some a)"
    if cand: "\<exists>k \<in> set (ACTIONS w state). ?all k"
  proof -
    from cand obtain c cs where cs: "?cands = c # cs"
      by (cases ?cands) (auto simp: filter_empty_conv)
    let ?a = "max_from ?key c cs"
    have pm: "py_max (map fst ?mav) ?key = Inr ?a"
      using ks cs by (simp add: py_max_def)
    have run: "RobustMCTSAgent_plan w state agents
            = Some (Inr ([?a], map (\<lambda>ag. ag\<lparr>previous_action := Some ?a\<rparr>) planned))"
      using pl pm by (simp add: RobustMCTSAgent_plan_def bind_res_def Let_def)
    have "?a \<in> set (c # cs)" by (rule max_from_in)
    with cs have mem: "?a \<in> set ?cands" by simp
    have key: "?key k = ?g k" if "k \<in> set ?cands" for k
      using that mav map_of_graph [of k ?cands ?g] by simp
    have ge: "?g k \<le> ?g ?a" if "k \<in> set ?cands" for k
    proof -
      from that cs have "k \<in> set (c # cs)" by simp
      then have "?key k \<le> ?key ?a" by (rule max_from_ge)
      with key [OF that] key [OF mem] show ?thesis by simp
    qed
    have 1: "?a \<in> set (ACTIONS w state)" using mem by simp
    have 2: "\<forall>ag \<in> set planned. ?a \<in> set (keys (root_node ag))" using mem by simp
    have 3: "\<forall>k \<in> set (ACTIONS w state). ?all k \<longrightarrow> ?g k \<le> ?g ?a"
      using ge by simp
    have 5: "\<forall>ag' \<in> set (map (\<lambda>ag. ag\<lparr>previous_action := Some ?a\<rparr>) planned).
           previous_action ag' = Some ?a"
      by simp
    show ?thesis
      by (rule exI [where x = ?a]) (intro conjI run 1 2 3 5)
  qed
  have none: "RobustMCTSAgent_plan w state agents = Some (Inl ValueError)"
    if "\<not> (\<exists>k \<in> set (ACTIONS w state). ?all k)"
  proof -
    from that have "?cands = []" by (simp add: filter_empty_conv)
    with ks have "py_max (map fst ?mav) ?key = Inl ValueError"
      by (simp add: py_max_def)
    with pl show ?thesis by (simp add: RobustMCTSAgent_plan_def bind_res_def Let_def)
  qed
  from some have s: "(\<exists>k \<in> set (ACTIONS w state). ?all k) \<longrightarrow>
        (\<exists>a. RobustMCTSAgent_plan w state agents
            = Some (Inr ([a], map (\<lambda>ag. ag\<lparr>previous_action := Some a\<rparr>) planned))
         \<and> a \<in> set (ACTIONS w state)
         \<and> (\<forall>ag \<in> set planned. a \<in> set (keys (root_node ag)))
         \<and> (\<forall>k \<in> set (ACTIONS w state). ?all k \<longrightarrow> ?g k \<le> ?g a)
         \<and> (\<forall>ag' \<in> set (map (\<lambda>ag. ag\<lparr>previous_action := Some a\<rparr>) planned).
               previous_action ag' = Some a))"
    by (rule impI)
  from none have n: "\<not> (\<exists>k \<in> set (ACTIONS w state). ?all k) \<longrightarrow>
        RobustMCTSAgent_plan w state agents = Some (Inl ValueError)"
    by (rule impI)
  show ?thesis by (intro conjI mav s n)
qed

text \<open>
  C7, amended. Take sub-agents that each have a well-formed tree, a prior policy that gives
  a probability to each of its actions and offers an action in the state of the agent, a
  rollout policy whose output the sampling accepts, a model substitution that does not raise,
  and at least one iteration. Then the plans of all sub-agents return, and every root has
  children afterwards. \<open>min_action_values\<close> then holds the keys of \<open>state.ACTIONS\<close> that are
  root children of every sub-agent, in the order of \<open>state.ACTIONS\<close>, each with the minimum
  over the sub-agents of the value of its root child. If there is such a key, the plan of the
  robust agent returns one of them that maximises this minimum, and every sub-agent has it as
  previous action. If there is none, the plan of the robust agent raises \<open>ValueError\<close>.
\<close>

theorem robust_plan_maximin:
  assumes "\<forall>ag \<in> set agents. agent_ready w state ag"
  shows "\<exists>planned. plan_all w state agents = Some (Inr planned)
   \<and> length planned = length agents
   \<and> (\<forall>ag \<in> set planned. children (root_node ag) \<noteq> [])
   \<and> fold min_over_agent planned (map (\<lambda>k. (k, Infinity)) (ACTIONS w state))
       = map (\<lambda>k. (k, min_value_across planned k))
           (filter (\<lambda>k. \<forall>ag \<in> set planned. k \<in> set (keys (root_node ag))) (ACTIONS w state))
   \<and> ((\<exists>k \<in> set (ACTIONS w state). \<forall>ag \<in> set planned. k \<in> set (keys (root_node ag))) \<longrightarrow>
        (\<exists>a. RobustMCTSAgent_plan w state agents
            = Some (Inr ([a], map (\<lambda>ag. ag\<lparr>previous_action := Some a\<rparr>) planned))
         \<and> a \<in> set (ACTIONS w state)
         \<and> (\<forall>ag \<in> set planned. a \<in> set (keys (root_node ag)))
         \<and> (\<forall>k \<in> set (ACTIONS w state). (\<forall>ag \<in> set planned. k \<in> set (keys (root_node ag))) \<longrightarrow>
               min_value_across planned k \<le> min_value_across planned a)
         \<and> (\<forall>ag' \<in> set (map (\<lambda>ag. ag\<lparr>previous_action := Some a\<rparr>) planned).
               previous_action ag' = Some a)))
   \<and> (\<not> (\<exists>k \<in> set (ACTIONS w state). \<forall>ag \<in> set planned. k \<in> set (keys (root_node ag))) \<longrightarrow>
        RobustMCTSAgent_plan w state agents = Some (Inl ValueError))"
proof -
  from plan_all_ok [OF assms]
  obtain planned where pl: "plan_all w state agents = Some (Inr planned)"
    and l: "length planned = length agents"
    and c: "\<forall>ag \<in> set planned. children (root_node ag) \<noteq> []"
    by (elim exE conjE) (rule that)
  note after = robust_plan_after [OF pl]
  show ?thesis
    by (rule exI [where x = planned]) (intro conjI pl l c after [THEN conjunct1]
        after [THEN conjunct2, THEN conjunct1] after [THEN conjunct2, THEN conjunct2])
qed

text \<open>
  C7, as stated, fails. With the action 0 as the only key of \<open>state.ACTIONS\<close>, both
  sub-agents have the root children 0 and 1, with the values 20 and 12 in the first and 2 and
  11 in the second: action 1 has the greater minimum, 11 against 2, and the plan returns
  action 0. With the keys 2 and 3 of \<open>state.ACTIONS\<close>, none of them a root child, the plan
  raises \<open>ValueError\<close>.
\<close>

theorem robust_plan_outside_actions_counterexample:
  "map_option (map_sum id (map root_child_values))
       (plan_all ex_world_narrow 0 [ex_agent 3 0, ex_agent 3 1])
     = Some (Inr [[(0, 20), (1, 12)], [(0, 2), (1, 11)]])
   \<and> map_option (map_sum id fst)
       (RobustMCTSAgent_plan ex_world_narrow 0 [ex_agent 3 0, ex_agent 3 1])
     = Some (Inr [0])
   \<and> map_option (map_sum id fst)
       (RobustMCTSAgent_plan ex_world_other 0 [ex_agent 3 0, ex_agent 3 1])
     = Some (Inl ValueError)"
  by code_simp

text \<open>
  Two agents with three iterations each, in the states 0 and 1. Their root children have the
  values 20 and 12, and 2 and 11: the minima are 2 for action 0 and 11 for action 1.
\<close>

theorem robust_plan_maximin_witness:
  "agent_ready ex_world 0 (ex_agent 3 0) \<and> agent_ready ex_world 0 (ex_agent 3 1)
   \<and> (\<exists>planned. plan_all ex_world 0 [ex_agent 3 0, ex_agent 3 1] = Some (Inr planned)
        \<and> (\<exists>k \<in> set (ACTIONS ex_world 0). \<forall>ag \<in> set planned. k \<in> set (keys (root_node ag)))
        \<and> min_value_across planned 0 = Finite 2
        \<and> min_value_across planned 1 = Finite 11
        \<and> RobustMCTSAgent_plan ex_world 0 [ex_agent 3 0, ex_agent 3 1]
             = Some (Inr ([1], map (\<lambda>ag. ag\<lparr>previous_action := Some 1\<rparr>) planned)))"
proof -
  have ready: "agent_ready ex_world 0 (ex_agent 3 n)" for n
    by (simp add: agent_ready_def ex_agent_def wf_store_def Node_def first_policy_def ex_world_def)
  then have all: "\<forall>ag \<in> set [ex_agent 3 0, ex_agent 3 1]. agent_ready ex_world 0 ag"
    by simp
  from robust_plan_maximin [OF all]
  obtain planned where pl: "plan_all ex_world 0 [ex_agent 3 0, ex_agent 3 1] = Some (Inr planned)"
    and len: "length planned = length [ex_agent 3 0, ex_agent 3 1]"
    and act: "(\<exists>k \<in> set (ACTIONS ex_world 0). \<forall>ag \<in> set planned. k \<in> set (keys (root_node ag))) \<longrightarrow>
        (\<exists>a. RobustMCTSAgent_plan ex_world 0 [ex_agent 3 0, ex_agent 3 1]
            = Some (Inr ([a], map (\<lambda>ag. ag\<lparr>previous_action := Some a\<rparr>) planned))
         \<and> a \<in> set (ACTIONS ex_world 0)
         \<and> (\<forall>ag \<in> set planned. a \<in> set (keys (root_node ag)))
         \<and> (\<forall>k \<in> set (ACTIONS ex_world 0). (\<forall>ag \<in> set planned. k \<in> set (keys (root_node ag))) \<longrightarrow>
               min_value_across planned k \<le> min_value_across planned a)
         \<and> (\<forall>ag' \<in> set (map (\<lambda>ag. ag\<lparr>previous_action := Some a\<rparr>) planned).
               previous_action ag' = Some a))"
    by (elim exE conjE) (rule that)
  have ev: "map_option (map_sum id (map root_child_values))
       (plan_all ex_world 0 [ex_agent 3 0, ex_agent 3 1])
     = Some (Inr [[(0, 20), (1, 12)], [(0, 2), (1, 11)]])"
    by code_simp
  with pl have pr: "map root_child_values planned = [[(0, 20), (1, 12)], [(0, 2), (1, 11)]]"
    by simp
  then obtain ag1 ag2 where p2: "planned = [ag1, ag2]"
    and a1: "root_child_values ag1 = [(0, 20), (1, 12)]"
    and a2: "root_child_values ag2 = [(0, 2), (1, 11)]"
    by auto
  have "map fst (root_child_values ag1) = map fst [(0, 20), (1, 12 :: real)]"
    by (simp only: a1)
  then have k1: "keys (root_node ag1) = [0, 1]"
    by (simp add: root_child_values_def o_def)
  have "map fst (root_child_values ag2) = map fst [(0, 2), (1, 11 :: real)]"
    by (simp only: a2)
  then have k2: "keys (root_node ag2) = [0, 1]"
    by (simp add: root_child_values_def o_def)
  have v1: "root_child_value ag1 0 = 20 \<and> root_child_value ag1 1 = 12"
    using a1 by (simp add: root_child_values_def k1)
  have v2: "root_child_value ag2 0 = 2 \<and> root_child_value ag2 1 = 11"
    using a2 by (simp add: root_child_values_def k2)
  have cand: "\<exists>k \<in> set (ACTIONS ex_world 0). \<forall>ag \<in> set planned. k \<in> set (keys (root_node ag))"
    by (auto simp: p2 k1 k2 ex_world_def)
  have m0: "min_value_across planned 0 = Finite 2"
    and m1: "min_value_across planned 1 = Finite 11"
    using v1 v2 by (simp_all add: min_value_across_def p2)
  from act cand
  obtain a where run: "RobustMCTSAgent_plan ex_world 0 [ex_agent 3 0, ex_agent 3 1]
            = Some (Inr ([a], map (\<lambda>ag. ag\<lparr>previous_action := Some a\<rparr>) planned))"
    and mem: "a \<in> set (ACTIONS ex_world 0)"
    and best: "\<forall>k \<in> set (ACTIONS ex_world 0). (\<forall>ag \<in> set planned. k \<in> set (keys (root_node ag))) \<longrightarrow>
           min_value_across planned k \<le> min_value_across planned a"
    by (elim impE exE conjE) (assumption, rule that)
  from mem have "a = 0 \<or> a = 1" by (simp add: ex_world_def)
  moreover have "min_value_across planned 1 \<le> min_value_across planned a"
    using best by (simp add: ex_world_def p2 k1 k2)
  ultimately have "a = 1" using m0 m1 by auto
  with run have r: "RobustMCTSAgent_plan ex_world 0 [ex_agent 3 0, ex_agent 3 1]
          = Some (Inr ([1], map (\<lambda>ag. ag\<lparr>previous_action := Some 1\<rparr>) planned))"
    by simp
  have "\<exists>planned. plan_all ex_world 0 [ex_agent 3 0, ex_agent 3 1] = Some (Inr planned)
        \<and> (\<exists>k \<in> set (ACTIONS ex_world 0). \<forall>ag \<in> set planned. k \<in> set (keys (root_node ag)))
        \<and> min_value_across planned 0 = Finite 2
        \<and> min_value_across planned 1 = Finite 11
        \<and> RobustMCTSAgent_plan ex_world 0 [ex_agent 3 0, ex_agent 3 1]
             = Some (Inr ([1], map (\<lambda>ag. ag\<lparr>previous_action := Some 1\<rparr>) planned))"
    by (rule exI [where x = planned]) (intro conjI pl cand m0 m1 r)
  with ready [of 0] ready [of 1] show ?thesis by (intro conjI)
qed

end
